theory Spec2Isabelle
  imports Main
begin

section \<open>The board engine of go-mines (package msboard)\<close>

text \<open>
  The development embeds \<^verbatim>\<open>src/msboard/Board.go\<close>.  Go's \<^verbatim>\<open>int\<close> is modelled
  as \<open>int\<close>: every integer the board engine computes is a grid index, a neighbour
  index (an index plus or minus one, taken only after the centre has been found inside
  the grid), a mine count or a cell count of a board of at most 30 x 16 cells, so no
  64-bit operation can wrap.  A run-time panic of Go is a value of type \<open>panic\<close>, and a
  function that can panic returns \<open>panic + 'a\<close>.
\<close>

subsection \<open>Data model\<close>

record Location =
  row :: int
  col :: int

definition NewLocation :: "int \<Rightarrow> int \<Rightarrow> Location" where
  "NewLocation r c = \<lparr>row = r, col = c\<rparr>"

record cell =
  location :: Location
  hasMine :: bool
  score :: int
  flagged :: bool
  revealed :: bool

record boardSaveState =
  initialized :: bool
  difficulty :: string
  rows :: int
  cols :: int
  mines :: "Location list"
  explosionOccured :: bool

text \<open>
  \<^verbatim>\<open>Board\<close> embeds \<^verbatim>\<open>boardSaveState\<close>.  The field \<^verbatim>\<open>cells [][]*cell\<close> is a slice of
  slices of pointers, each pointing to a cell of its own (\<^verbatim>\<open>new(cell)\<close> in
  \<^verbatim>\<open>Initialize\<close>); the store of these cells is the grid itself, and a non-nil
  \<^verbatim>\<open>*cell\<close> is the address (slice index, index in the slice) of the cell it points to.
  A nil \<^verbatim>\<open>*cell\<close> is \<open>None\<close>.  A nil slice is the empty list.
\<close>

record Board = boardSaveState +
  cells :: "cell list list"
  safeRemaining :: int
  mineCount :: int

type_synonym cellptr = "nat \<times> nat"

text \<open>
  The run-time panics of the engine: an index outside a slice, a negative length given to
  \<^verbatim>\<open>make\<close>, a field access through a nil pointer.  \<open>InvalidAddress\<close> is the
  model's own: an address that is no cell of the grid, which no Go pointer can be; the
  operations below return it instead of reading such an address.
\<close>

datatype panic = IndexOutOfRange | MakeSliceLenOutOfRange | NilDereference | InvalidAddress

text \<open>The zero values of Go for a cell and for a board (\<^verbatim>\<open>new(cell)\<close>, \<^verbatim>\<open>new(Board)\<close>).\<close>

definition zeroCell :: cell where
  "zeroCell = \<lparr>location = \<lparr>row = 0, col = 0\<rparr>, hasMine = False, score = 0,
     flagged = False, revealed = False\<rparr>"

definition zeroBoard :: Board where
  "zeroBoard = \<lparr>initialized = False, difficulty = [], rows = 0, cols = 0, mines = [],
     explosionOccured = False, cells = [], safeRemaining = 0, mineCount = 0\<rparr>"

subsection \<open>Construction\<close>

record boardparams =
  bp_difficulty :: string
  bp_rows :: int
  bp_cols :: int
  bp_mineCount :: int

text \<open>The map literal of \<^verbatim>\<open>boardDefinitionsDict\<close>, as an association list.\<close>

definition boardDefinitionsDict :: "(string \<times> boardparams) list" where
  "boardDefinitionsDict =
    [(''easy'', \<lparr>bp_difficulty = ''easy'', bp_rows = 9, bp_cols = 9, bp_mineCount = 10\<rparr>),
     (''medium'', \<lparr>bp_difficulty = ''medium'', bp_rows = 16, bp_cols = 16, bp_mineCount = 30\<rparr>),
     (''hard'', \<lparr>bp_difficulty = ''hard'', bp_rows = 30, bp_cols = 16, bp_mineCount = 72\<rparr>)]"

text \<open>\<^verbatim>\<open>NewBoard\<close> returns nil (\<open>None\<close>) for a name that is not a key of the map.\<close>

definition NewBoard :: "string \<Rightarrow> Board option" where
  "NewBoard d =
    (case map_of boardDefinitionsDict d of
       None \<Rightarrow> None
     | Some params \<Rightarrow>
         Some (zeroBoard\<lparr>difficulty := d, rows := bp_rows params, cols := bp_cols params,
                 mineCount := bp_mineCount params\<rparr>))"

text \<open>
  The repository also holds an older copy of the engine in its root package
  (\<^verbatim>\<open>src/Board.go\<close>, package gomines).  Its cell has no location, its grid holds the
  cells themselves, its board has no difficulty and no explosion flag, and its table has
  the same names and dimensions and other mine counts.
\<close>

record gomines_cell =
  g_hasMine :: bool
  g_score :: int
  g_flagged :: bool
  g_revealed :: bool

record gomines_Board =
  g_initialized :: bool
  g_rows :: int
  g_cols :: int
  g_mines :: "Location list"
  g_cells :: "gomines_cell list list"
  g_safeRemaining :: int
  g_mineCount :: int

definition gomines_zeroBoard :: gomines_Board where
  "gomines_zeroBoard = \<lparr>g_initialized = False, g_rows = 0, g_cols = 0, g_mines = [],
     g_cells = [], g_safeRemaining = 0, g_mineCount = 0\<rparr>"

definition boardDefinitionsDict_gomines :: "(string \<times> boardparams) list" where
  "boardDefinitionsDict_gomines =
    [(''easy'', \<lparr>bp_difficulty = ''easy'', bp_rows = 9, bp_cols = 9, bp_mineCount = 6\<rparr>),
     (''medium'', \<lparr>bp_difficulty = ''medium'', bp_rows = 16, bp_cols = 16, bp_mineCount = 18\<rparr>),
     (''hard'', \<lparr>bp_difficulty = ''hard'', bp_rows = 30, bp_cols = 16, bp_mineCount = 36\<rparr>)]"

definition NewBoard_gomines :: "string \<Rightarrow> gomines_Board option" where
  "NewBoard_gomines d =
    (case map_of boardDefinitionsDict_gomines d of
       None \<Rightarrow> None
     | Some params \<Rightarrow>
         Some (gomines_zeroBoard\<lparr>g_rows := bp_rows params, g_cols := bp_cols params,
                 g_mineCount := bp_mineCount params\<rparr>))"

subsection \<open>Cell lookup\<close>

text \<open>
  \<^verbatim>\<open>getCell\<close>: the bounds check against \<^verbatim>\<open>b.rows\<close> and \<^verbatim>\<open>b.cols\<close>, then the
  indexing \<^verbatim>\<open>b.cells[selected.row][selected.col]\<close>, which panics when an index is not
  below the length of the slice it indexes.
\<close>

definition getCell :: "Board \<Rightarrow> Location \<Rightarrow> panic + cellptr option" where
  "getCell b selected =
    (if row selected < 0 \<or> row selected \<ge> rows b \<or> col selected < 0 \<or> col selected \<ge> cols b
     then Inr None
     else if nat (row selected) < length (cells b)
              \<and> nat (col selected) < length (cells b ! nat (row selected))
          then Inr (Some (nat (row selected), nat (col selected)))
          else Inl IndexOutOfRange)"


subsection \<open>The cells behind the pointers\<close>

text \<open>Reading a cell through a pointer, and writing a cell back through it.\<close>

definition load :: "Board \<Rightarrow> cellptr \<Rightarrow> panic + cell" where
  "load b p =
    (if fst p < length (cells b) \<and> snd p < length (cells b ! fst p)
     then Inr (cells b ! fst p ! snd p) else Inl InvalidAddress)"

definition store :: "Board \<Rightarrow> cellptr \<Rightarrow> cell \<Rightarrow> Board" where
  "store b p c = b\<lparr>cells := (cells b)[fst p := (cells b ! fst p)[snd p := c]]\<rparr>"

text \<open>A \<^verbatim>\<open>for ... range\<close> loop over a state that each iteration may replace or panic on.\<close>

fun forEach :: "'i list \<Rightarrow> ('i \<Rightarrow> 's \<Rightarrow> panic + 's) \<Rightarrow> 's \<Rightarrow> panic + 's" where
  "forEach [] body s = Inr s"
| "forEach (i # is) body s =
    (case body i s of Inl e \<Rightarrow> Inl e | Inr s' \<Rightarrow> forEach is body s')"

subsection \<open>Neighbours\<close>

text \<open>
  The positions the two nested loops of \<^verbatim>\<open>getNeighborCells\<close> visit, in their order:
  \<^verbatim>\<open>nrow\<close> from \<^verbatim>\<open>loc.row - 1\<close> to \<^verbatim>\<open>loc.row + 1\<close>, and for each \<^verbatim>\<open>ncol\<close> from
  \<^verbatim>\<open>loc.col - 1\<close> to \<^verbatim>\<open>loc.col + 1\<close>.
\<close>

definition neighborLocs :: "Location \<Rightarrow> Location list" where
  "neighborLocs loc =
    concat (map (\<lambda>nrow. map (\<lambda>ncol. \<lparr>row = nrow, col = ncol\<rparr>) [col loc - 1 .. col loc + 1])
              [row loc - 1 .. row loc + 1])"

text \<open>The body of the loops: skip the centre, skip what \<^verbatim>\<open>getCell\<close> finds absent, append the rest.\<close>

fun collectNeighbors ::
  "Board \<Rightarrow> Location \<Rightarrow> Location list \<Rightarrow> cellptr list \<Rightarrow> panic + cellptr list" where
  "collectNeighbors b loc [] retval = Inr retval"
| "collectNeighbors b loc (neighborloc # rest) retval =
    (if loc = neighborloc then collectNeighbors b loc rest retval
     else (case getCell b neighborloc of
             Inl e \<Rightarrow> Inl e
           | Inr None \<Rightarrow> collectNeighbors b loc rest retval
           | Inr (Some neighbor) \<Rightarrow> collectNeighbors b loc rest (retval @ [neighbor])))"

text \<open>
  \<^verbatim>\<open>getNeighborCells\<close> returns nil for a centre that \<^verbatim>\<open>getCell\<close> finds absent; its
  callers only range over the result (and print to stderr when it is nil), so nil and the
  empty slice are both \<open>[]\<close>.
\<close>

definition getNeighborCells :: "Board \<Rightarrow> Location \<Rightarrow> panic + cellptr list" where
  "getNeighborCells b loc =
    (case getCell b loc of
       Inl e \<Rightarrow> Inl e
     | Inr None \<Rightarrow> Inr []
     | Inr (Some center) \<Rightarrow> collectNeighbors b loc (neighborLocs loc) [])"

subsection \<open>Initialization\<close>

text \<open>
  The two \<^verbatim>\<open>make\<close> calls and the loops that fill the grid with new cells, each with
  its location.  \<^verbatim>\<open>make\<close> panics on a negative length.
\<close>

definition allocCells :: "Board \<Rightarrow> panic + cell list list" where
  "allocCells b =
    (if rows b < 0 then Inl MakeSliceLenOutOfRange
     else if rows b > 0 \<and> cols b < 0 then Inl MakeSliceLenOutOfRange
     else Inr (map (\<lambda>r. map (\<lambda>c. zeroCell\<lparr>location := NewLocation (int r) (int c)\<rparr>)
                          [0 ..< nat (cols b)])
                [0 ..< nat (rows b)]))"

text \<open>
  Mine placement.  The random source \<^verbatim>\<open>rand.Intn(100)\<close> is a parameter: \<open>rnd k\<close> is the
  value of the \<open>k\<close>-th draw of this call of \<^verbatim>\<open>Initialize\<close>.  The state of the placement
  loops is the board, \<^verbatim>\<open>minesToPlace\<close> and the number of draws made so far.
\<close>

type_synonym placing = "Board \<times> int \<times> nat"

definition placeCell :: "(nat \<Rightarrow> int) \<Rightarrow> Location \<Rightarrow> nat \<Rightarrow> nat \<Rightarrow> placing \<Rightarrow> panic + placing" where
  "placeCell rnd safespot r c st =
    (case st of (b, minesToPlace, k) \<Rightarrow>
      if minesToPlace = 0 then Inr st
      else
        let currloc = \<lparr>row = int r, col = int c\<rparr> in
        if currloc = safespot then Inr st
        else
          let mineshot = rnd k in
          if mineshot < 2 then
            (case getCell b currloc of
               Inl e \<Rightarrow> Inl e
             | Inr None \<Rightarrow> Inl NilDereference
             | Inr (Some currcell) \<Rightarrow>
                (case load b currcell of
                   Inl e \<Rightarrow> Inl e
                 | Inr cl \<Rightarrow>
                    if hasMine cl then Inr (b, minesToPlace, Suc k)
                    else if r < length (cells b) \<and> c < length (cells b ! r) then
                      Inr (store b (r, c) ((cells b ! r ! c)\<lparr>hasMine := True\<rparr>)
                             \<lparr>mines := mines b @ [currloc], safeRemaining := safeRemaining b - 1\<rparr>,
                           minesToPlace - 1, Suc k)
                    else Inl IndexOutOfRange))
          else Inr (b, minesToPlace, Suc k))"

text \<open>One round: the scan of every cell in row-major order.\<close>

definition scanGrid :: "(nat \<Rightarrow> int) \<Rightarrow> Location \<Rightarrow> placing \<Rightarrow> panic + placing" where
  "scanGrid rnd safespot st =
    forEach [0 ..< length (cells (fst st))]
      (\<lambda>r s. forEach [0 ..< length (cells (fst s) ! r)] (placeCell rnd safespot r) s) st"

text \<open>
  The outer loop \<^verbatim>\<open>for minesToPlace > 0\<close> runs for as many rounds as the draws make it
  run, and for ever when no round places a mine; not returning is the value \<open>None\<close>.
\<close>

partial_function (option) placeMines ::
  "(nat \<Rightarrow> int) \<Rightarrow> Location \<Rightarrow> placing \<Rightarrow> (panic + placing) option" where
  [code]: "placeMines rnd safespot st =
    (if fst (snd st) > 0 then
       (case scanGrid rnd safespot st of
          Inl e \<Rightarrow> Some (Inl e)
        | Inr st' \<Rightarrow> placeMines rnd safespot st')
     else Some (Inr st))"

text \<open>The inner loop of \<^verbatim>\<open>initializeScores\<close>: count the neighbours that hold a mine.\<close>

fun countMines :: "Board \<Rightarrow> cellptr list \<Rightarrow> int \<Rightarrow> panic + int" where
  "countMines b [] cellScore = Inr cellScore"
| "countMines b (neighbor # rest) cellScore =
    (case load b neighbor of
       Inl e \<Rightarrow> Inl e
     | Inr cl \<Rightarrow> countMines b rest (if hasMine cl then cellScore + 1 else cellScore))"

definition scoreCell :: "nat \<Rightarrow> nat \<Rightarrow> Board \<Rightarrow> panic + Board" where
  "scoreCell r c b =
    (let currloc = \<lparr>row = int r, col = int c\<rparr> in
     case getCell b currloc of
       Inl e \<Rightarrow> Inl e
     | Inr currcell \<Rightarrow>
        (case getNeighborCells b currloc of
           Inl e \<Rightarrow> Inl e
         | Inr neighbors \<Rightarrow>
            (case countMines b neighbors 0 of
               Inl e \<Rightarrow> Inl e
             | Inr cellScore \<Rightarrow>
                (case currcell of
                   None \<Rightarrow> Inl NilDereference
                 | Some p \<Rightarrow>
                    (case load b p of
                       Inl e \<Rightarrow> Inl e
                     | Inr cl \<Rightarrow> Inr (store b p (cl\<lparr>score := cellScore\<rparr>)))))))"

definition initializeScores :: "Board \<Rightarrow> panic + Board" where
  "initializeScores b =
    forEach [0 ..< length (cells b)]
      (\<lambda>r s. forEach [0 ..< length (cells s ! r)] (scoreCell r) s) b"

text \<open>
  \<^verbatim>\<open>Initialize\<close> returns the error nil whenever it returns; the result here is the board
  it leaves.  It does not reset \<^verbatim>\<open>mines\<close> or \<^verbatim>\<open>explosionOccured\<close>.
\<close>

definition Initialize :: "(nat \<Rightarrow> int) \<Rightarrow> Board \<Rightarrow> Location \<Rightarrow> (panic + Board) option" where
  "Initialize rnd b safespot =
    (case allocCells b of
       Inl e \<Rightarrow> Some (Inl e)
     | Inr cs \<Rightarrow>
        (let b1 = b\<lparr>cells := cs, safeRemaining := rows b * cols b\<rparr> in
         case placeMines rnd safespot (b1, mineCount b1, 0) of
           None \<Rightarrow> None
         | Some (Inl e) \<Rightarrow> Some (Inl e)
         | Some (Inr (b2, minesToPlace, k)) \<Rightarrow>
            (case initializeScores b2 of
               Inl e \<Rightarrow> Some (Inl e)
             | Inr b3 \<Rightarrow> Some (Inr (b3\<lparr>initialized := True\<rparr>)))))"

subsection \<open>Queries\<close>

text \<open>The receiver of a method that checks \<^verbatim>\<open>nil == b\<close> is a \<open>Board option\<close>.\<close>

definition Initialized :: "Board option \<Rightarrow> bool" where
  "Initialized ob = (case ob of None \<Rightarrow> False | Some b \<Rightarrow> initialized b)"

definition SafeRemaining :: "Board option \<Rightarrow> int" where
  "SafeRemaining ob =
    (case ob of None \<Rightarrow> 0 | Some b \<Rightarrow> if \<not> initialized b then 0 else safeRemaining b)"

definition MineHit :: "Board \<Rightarrow> bool" where
  "MineHit b = explosionOccured b"

definition ValidLocation :: "Board \<Rightarrow> Location \<Rightarrow> bool" where
  "ValidLocation b l = (if row l \<ge> 0 \<and> row l < rows b \<and> col l \<ge> 0 \<and> col l < cols b then True else False)"

subsection \<open>Reveal propagation and the click\<close>

text \<open>
  \<^verbatim>\<open>PropagateReveals\<close> calls itself from inside its loop over the neighbours; the loop
  is \<open>revealNeighbors\<close>, which reads each neighbour through its pointer at the moment
  the loop reaches it.
\<close>

function (domintros) PropagateReveals :: "Board \<Rightarrow> cellptr option \<Rightarrow> panic + Board"
  and revealNeighbors :: "Board \<Rightarrow> cellptr list \<Rightarrow> panic + Board" where
  "PropagateReveals b None = Inr b"
| "PropagateReveals b (Some p) =
    (case load b p of
       Inl e \<Rightarrow> Inl e
     | Inr c \<Rightarrow>
        (case getNeighborCells b (location c) of
           Inl e \<Rightarrow> Inl e
         | Inr neighbors \<Rightarrow> revealNeighbors b neighbors))"
| "revealNeighbors b [] = Inr b"
| "revealNeighbors b (n # ns) =
    (case load b n of
       Inl e \<Rightarrow> Inl e
     | Inr c \<Rightarrow>
        if revealed c then revealNeighbors b ns
        else (let b1 = store b n (c\<lparr>revealed := True\<rparr>) in
              if score c = 0 then
                (case PropagateReveals b1 (Some n) of
                   Inl e \<Rightarrow> Inl e
                 | Inr b2 \<Rightarrow> revealNeighbors b2 ns)
              else revealNeighbors b1 ns))"
  by pat_completeness auto

text \<open>The number of cells of the grid that are not revealed: what the recursion consumes.\<close>

definition unrevealedCount :: "Board \<Rightarrow> nat" where
  "unrevealedCount b = sum_list (map (\<lambda>r. length (filter (\<lambda>c. \<not> revealed c) r)) (cells b))"

text \<open>
  The order in which the calls descend: first the number of unrevealed cells, then a
  call of \<open>PropagateReveals\<close> before the loop it starts, then the neighbours left.
\<close>

definition propagateOrder ::
  "((Board \<times> cellptr option + Board \<times> cellptr list) \<times> (Board \<times> cellptr option + Board \<times> cellptr list)) set" where
  "propagateOrder = measures [
    (\<lambda>x. case x of Inl (b, c) \<Rightarrow> unrevealedCount b | Inr (b, ns) \<Rightarrow> unrevealedCount b),
    (\<lambda>x. case x of Inl (b, c) \<Rightarrow> 1 | Inr (b, ns) \<Rightarrow> 0),
    (\<lambda>x. case x of Inl (b, c) \<Rightarrow> 0 | Inr (b, ns) \<Rightarrow> length ns)]"

text \<open>\<^verbatim>\<open>Click\<close>: the state changes of a click on a location.\<close>

definition Click :: "Board \<Rightarrow> Location \<Rightarrow> panic + Board" where
  "Click b l =
    (case getCell b l of
       Inl e \<Rightarrow> Inl e
     | Inr None \<Rightarrow> Inr b
     | Inr (Some p) \<Rightarrow>
        (case load b p of
           Inl e \<Rightarrow> Inl e
         | Inr c \<Rightarrow>
            if flagged c then Inr b
            else if revealed c then Inr b
            else
              (let b1 = store b p (c\<lparr>revealed := True\<rparr>) in
               if hasMine c then Inr (b1\<lparr>explosionOccured := True\<rparr>)
               else if score c = 0 then PropagateReveals b1 (Some p)
               else Inr b1)))"

text \<open>\<^verbatim>\<open>ToggleFlag\<close>: ignored for a cell that is absent or revealed.\<close>

definition ToggleFlag :: "Board \<Rightarrow> Location \<Rightarrow> panic + Board" where
  "ToggleFlag b l =
    (case getCell b l of
       Inl e \<Rightarrow> Inl e
     | Inr None \<Rightarrow> Inr b
     | Inr (Some p) \<Rightarrow>
        (case load b p of
           Inl e \<Rightarrow> Inl e
         | Inr c \<Rightarrow>
            if revealed c = False then Inr (store b p (c\<lparr>flagged := \<not> flagged c\<rparr>))
            else Inr b))"

text \<open>
  \<^verbatim>\<open>RevealAll\<close> returns an error (here its message) for a nil or uninitialized board,
  and otherwise sets every cell of every row to revealed.
\<close>

definition RevealAll :: "Board option \<Rightarrow> string + Board" where
  "RevealAll ob =
    (case ob of
       None \<Rightarrow> Inl ''called RevealAll() on an uninitialized board''
     | Some b \<Rightarrow>
        if \<not> initialized b then Inl ''called RevealAll() on an uninitialized board''
        else Inr (b\<lparr>cells := map (map (\<lambda>c. c\<lparr>revealed := True\<rparr>)) (cells b)\<rparr>))"

section \<open>Vocabulary of the properties\<close>

text \<open>
  A pointer is a cell of the grid when both its indices are inside the slices; \<open>locOf\<close>
  and \<open>ptrOf\<close> go between grid indices and locations.  Two cells are adjacent when they
  differ and their rows and their columns are each at most one apart (the Moore
  neighbourhood).
\<close>

definition inGrid :: "Board \<Rightarrow> cellptr \<Rightarrow> bool" where
  "inGrid b p = (fst p < length (cells b) \<and> snd p < length (cells b ! fst p))"

definition cellAt :: "Board \<Rightarrow> cellptr \<Rightarrow> cell" where
  "cellAt b p = cells b ! fst p ! snd p"

definition locOf :: "cellptr \<Rightarrow> Location" where
  "locOf p = \<lparr>row = int (fst p), col = int (snd p)\<rparr>"

definition ptrOf :: "Location \<Rightarrow> cellptr" where
  "ptrOf l = (nat (row l), nat (col l))"

definition adjacent :: "cellptr \<Rightarrow> cellptr \<Rightarrow> bool" where
  "adjacent p q = (p \<noteq> q \<and> \<bar>int (fst p) - int (fst q)\<bar> \<le> 1 \<and> \<bar>int (snd p) - int (snd q)\<bar> \<le> 1)"

text \<open>
  The grid as \<^verbatim>\<open>Initialize\<close> allocates it: \<^verbatim>\<open>rows\<close> slices of \<^verbatim>\<open>cols\<close> cells, each cell
  holding its own location.
\<close>

definition gridOK :: "Board \<Rightarrow> bool" where
  "gridOK b =
    (0 \<le> rows b \<and> 0 \<le> cols b \<and> length (cells b) = nat (rows b)
     \<and> (\<forall>r < nat (rows b). length (cells b ! r) = nat (cols b))
     \<and> (\<forall>p. inGrid b p \<longrightarrow> location (cellAt b p) = locOf p))"

text \<open>
  Two boards differ at most in one field of their cells when they are equal once that
  field is erased in every cell.
\<close>

definition mapCells :: "(cell \<Rightarrow> cell) \<Rightarrow> Board \<Rightarrow> Board" where
  "mapCells f b = b\<lparr>cells := map (map f) (cells b)\<rparr>"

definition eraseRevealed :: "Board \<Rightarrow> Board" where
  "eraseRevealed b = mapCells (\<lambda>c. c\<lparr>revealed := False\<rparr>) b"

definition eraseScores :: "Board \<Rightarrow> Board" where
  "eraseScores b = mapCells (\<lambda>c. c\<lparr>score := 0\<rparr>) b"

definition revealedAt :: "Board \<Rightarrow> cellptr \<Rightarrow> bool" where
  "revealedAt b p = (inGrid b p \<and> revealed (cellAt b p))"

definition floods :: "Board \<Rightarrow> Board \<Rightarrow> bool" where
  "floods b b' = (eraseRevealed b' = eraseRevealed b \<and> (\<forall>p. revealedAt b p \<longrightarrow> revealedAt b' p))"

text \<open>
  The cells joined to \<open>p\<close> by a path of neighbouring cells of the grid whose cells after
  \<open>p\<close> all have score 0: for a \<open>p\<close> of score 0, its connected zero-score region.
\<close>

inductive_set zeroReach :: "Board \<Rightarrow> cellptr \<Rightarrow> cellptr set" for b :: Board and p :: cellptr where
  start: "p \<in> zeroReach b p"
| step: "z \<in> zeroReach b p \<Longrightarrow> inGrid b q \<Longrightarrow> adjacent z q \<Longrightarrow> score (cellAt b q) = 0
          \<Longrightarrow> q \<in> zeroReach b p"

definition nbrOf :: "Board \<Rightarrow> cellptr set \<Rightarrow> cellptr set" where
  "nbrOf b S = {q. inGrid b q \<and> (\<exists>z\<in>S. adjacent z q)}"

definition closedNew :: "Board \<Rightarrow> Board \<Rightarrow> bool" where
  "closedNew b b' =
    (\<forall>z. revealedAt b' z \<and> \<not> revealedAt b z \<and> score (cellAt b z) = 0
         \<longrightarrow> (\<forall>q. inGrid b q \<and> adjacent z q \<longrightarrow> revealedAt b' q))"

definition propagatePost :: "Board \<Rightarrow> cellptr \<Rightarrow> Board \<Rightarrow> bool" where
  "propagatePost b p b' =
    (floods b b' \<and> closedNew b b'
     \<and> (\<forall>q. inGrid b q \<and> adjacent p q \<longrightarrow> revealedAt b' q)
     \<and> (\<forall>q. revealedAt b' q \<and> \<not> revealedAt b q \<longrightarrow> q \<in> nbrOf b (zeroReach b p)))"

definition neighborsPost :: "Board \<Rightarrow> cellptr list \<Rightarrow> Board \<Rightarrow> bool" where
  "neighborsPost b ns b' =
    (floods b b' \<and> closedNew b b'
     \<and> (\<forall>n\<in>set ns. revealedAt b' n)
     \<and> (\<forall>q. revealedAt b' q \<and> \<not> revealedAt b q \<longrightarrow>
            q \<in> set ns \<or> (\<exists>n\<in>set ns. score (cellAt b n) = 0 \<and> q \<in> nbrOf b (zeroReach b n))))"

text \<open>
  The neighbours of a cell that hold a mine, and the boards whose every score is the
  number of them.
\<close>

definition mineNbrs :: "Board \<Rightarrow> cellptr \<Rightarrow> cellptr set" where
  "mineNbrs b p = {q. inGrid b q \<and> adjacent p q \<and> hasMine (cellAt b q)}"

definition scoresOK :: "Board \<Rightarrow> bool" where
  "scoresOK b = (\<forall>p. inGrid b p \<longrightarrow> score (cellAt b p) = int (card (mineNbrs b p)))"

text \<open>
  Every revealed mine-free cell of score 0 has all its neighbours revealed: what each
  completed click leaves true.
\<close>

definition closedZeros :: "Board \<Rightarrow> bool" where
  "closedZeros b =
    (\<forall>z. revealedAt b z \<and> score (cellAt b z) = 0 \<and> \<not> hasMine (cellAt b z)
         \<longrightarrow> (\<forall>q. inGrid b q \<and> adjacent z q \<longrightarrow> revealedAt b q))"

text \<open>
  The zero-score region of \<open>p\<close> together with its border, the neighbours of the region
  that have a non-zero score.
\<close>

definition floodSet :: "Board \<Rightarrow> cellptr \<Rightarrow> cellptr set" where
  "floodSet b p =
    zeroReach b p \<union> {q. score (cellAt b q) \<noteq> 0 \<and> q \<in> nbrOf b (zeroReach b p)}"

definition countsOK :: "Board \<Rightarrow> bool" where
  "countsOK b = (0 \<le> mineCount b \<and> safeRemaining b = rows b * cols b - mineCount b)"

definition boardInv :: "Board \<Rightarrow> bool" where
  "boardInv b = (initialized b \<and> countsOK b \<and> gridOK b \<and> scoresOK b \<and> closedZeros b)"

definition sameGrid :: "Board \<Rightarrow> Board \<Rightarrow> bool" where
  "sameGrid b b' =
    (rows b' = rows b \<and> cols b' = cols b \<and> length (cells b') = length (cells b)
     \<and> (\<forall>r < length (cells b). length (cells b' ! r) = length (cells b ! r))
     \<and> (\<forall>q. inGrid b q \<longrightarrow> location (cellAt b' q) = location (cellAt b q)
            \<and> hasMine (cellAt b' q) = hasMine (cellAt b q)
            \<and> score (cellAt b' q) = score (cellAt b q)))"

text \<open>The number of cells that hold a mine, and the invariants of the loops of \<^verbatim>\<open>Initialize\<close>.\<close>

definition mineCells :: "Board \<Rightarrow> nat" where
  "mineCells b = length (filter hasMine (concat (cells b)))"

definition placeInv :: "Board \<Rightarrow> Location \<Rightarrow> placing \<Rightarrow> bool" where
  "placeInv b0 safespot st =
    (case st of (b, m, k) \<Rightarrow>
      gridOK b \<and> rows b = rows b0 \<and> cols b = cols b0 \<and> mineCount b = mineCount b0
      \<and> 0 \<le> m \<and> int (mineCells b) + m = mineCount b0
      \<and> safeRemaining b = rows b0 * cols b0 - int (mineCells b)
      \<and> (\<forall>p. inGrid b p \<longrightarrow> \<not> revealed (cellAt b p)
              \<and> (locOf p = safespot \<longrightarrow> \<not> hasMine (cellAt b p))))"

definition scoredInv :: "Board \<Rightarrow> cellptr set \<Rightarrow> Board \<Rightarrow> bool" where
  "scoredInv b0 D b =
    (eraseScores b = eraseScores b0
     \<and> (\<forall>p\<in>D. inGrid b0 p \<longrightarrow> score (cellAt b p) = int (card (mineNbrs b0 p))))"

text \<open>
  The boards in play: what \<^verbatim>\<open>Initialize\<close> returns on a board from \<^verbatim>\<open>NewBoard\<close>, and what
  \<^verbatim>\<open>Initialize\<close>, \<^verbatim>\<open>Click\<close>, \<^verbatim>\<open>ToggleFlag\<close> and \<^verbatim>\<open>RevealAll\<close> return on a board in play.
\<close>

inductive reachable :: "Board \<Rightarrow> bool" where
  init: "NewBoard name = Some b0 \<Longrightarrow> Initialize rnd b0 safespot = Some (Inr b) \<Longrightarrow> reachable b"
| reinit: "reachable b \<Longrightarrow> Initialize rnd b safespot = Some (Inr b') \<Longrightarrow> reachable b'"
| click: "reachable b \<Longrightarrow> Click b l = Inr b' \<Longrightarrow> reachable b'"
| flag: "reachable b \<Longrightarrow> ToggleFlag b l = Inr b' \<Longrightarrow> reachable b'"
| revealAll: "reachable b \<Longrightarrow> RevealAll (Some b) = Inr b' \<Longrightarrow> reachable b'"

text \<open>
  A sample game: the easy board, the safe cell in row 4, column 4, and draws that hit
  (value 0) at every seventh draw and miss (value 50) otherwise.  \<open>sampleBoard\<close> is the
  board \<^verbatim>\<open>Initialize\<close> returns for them.
\<close>

definition sampleDraws :: "nat \<Rightarrow> int" where
  "sampleDraws k = (if k mod 7 = 0 then 0 else 50)"

definition easyBoard :: Board where
  "easyBoard = zeroBoard\<lparr>difficulty := ''easy'', rows := 9, cols := 9, mineCount := 10\<rparr>"

definition sampleSafe :: Location where
  "sampleSafe = \<lparr>row = 4, col = 4\<rparr>"

definition sampleMines :: "(nat \<times> nat) list" where
  "sampleMines = [(0,0), (0,7), (1,5), (2,3), (3,1), (3,8), (4,7), (5,5), (6,3), (7,1)]"

definition sampleScores :: "int list list" where
  "sampleScores =
    [[0, 1, 0, 0, 1, 1, 2, 0, 1],
     [1, 1, 1, 1, 2, 0, 2, 1, 1],
     [1, 1, 2, 0, 2, 1, 1, 1, 1],
     [1, 0, 2, 1, 1, 0, 1, 2, 1],
     [1, 1, 1, 0, 1, 1, 2, 1, 2],
     [0, 0, 1, 1, 2, 0, 2, 1, 1],
     [1, 1, 2, 0, 2, 1, 1, 0, 0],
     [1, 0, 2, 1, 1, 0, 0, 0, 0],
     [1, 1, 1, 0, 0, 0, 0, 0, 0]]"

definition sampleBoard :: Board where
  "sampleBoard =
    \<lparr>initialized = True, difficulty = ''easy'', rows = 9, cols = 9,
     mines = map (\<lambda>(r, c). \<lparr>row = int r, col = int c\<rparr>) sampleMines,
     explosionOccured = False,
     cells = map (\<lambda>r. map (\<lambda>c.
                \<lparr>location = \<lparr>row = int r, col = int c\<rparr>, hasMine = ((r, c) \<in> set sampleMines),
                 score = sampleScores ! r ! c, flagged = False, revealed = False\<rparr>) [0 ..< 9]) [0 ..< 9],
     safeRemaining = 71, mineCount = 10\<rparr>"

definition sampleMineLoc :: Location where
  "sampleMineLoc = \<lparr>row = 0, col = 0\<rparr>"

definition sampleZeroLoc :: Location where
  "sampleZeroLoc = \<lparr>row = 0, col = 2\<rparr>"

definition sampleFlagged :: Board where
  "sampleFlagged = store sampleBoard (0, 1) ((cellAt sampleBoard (0, 1))\<lparr>flagged := True\<rparr>)"

text \<open>Boards that differ only in flags are equal once the flags are erased.\<close>

definition eraseFlags :: "Board \<Rightarrow> Board" where
  "eraseFlags b = mapCells (\<lambda>c. c\<lparr>flagged := False\<rparr>) b"

text \<open>
  The propagation again, returning beside the board the cells it was entered with, in
  the order of the calls: the same equations as \<open>PropagateReveals\<close> and
  \<open>revealNeighbors\<close>, with the list of entered cells added to the result.
\<close>

function (domintros) PropagateRevealsT :: "Board \<Rightarrow> cellptr option \<Rightarrow> panic + Board \<times> cellptr list"
  and revealNeighborsT :: "Board \<Rightarrow> cellptr list \<Rightarrow> panic + Board \<times> cellptr list" where
  "PropagateRevealsT b None = Inr (b, [])"
| "PropagateRevealsT b (Some p) =
    (case load b p of
       Inl e \<Rightarrow> Inl e
     | Inr c \<Rightarrow>
        (case getNeighborCells b (location c) of
           Inl e \<Rightarrow> Inl e
         | Inr neighbors \<Rightarrow>
            (case revealNeighborsT b neighbors of
               Inl e \<Rightarrow> Inl e
             | Inr r \<Rightarrow> Inr (fst r, p # snd r))))"
| "revealNeighborsT b [] = Inr (b, [])"
| "revealNeighborsT b (n # ns) =
    (case load b n of
       Inl e \<Rightarrow> Inl e
     | Inr c \<Rightarrow>
        if revealed c then revealNeighborsT b ns
        else (let b1 = store b n (c\<lparr>revealed := True\<rparr>) in
              if score c = 0 then
                (case PropagateRevealsT b1 (Some n) of
                   Inl e \<Rightarrow> Inl e
                 | Inr r1 \<Rightarrow>
                    (case revealNeighborsT (fst r1) ns of
                       Inl e \<Rightarrow> Inl e
                     | Inr r2 \<Rightarrow> Inr (fst r2, snd r1 @ snd r2)))
              else revealNeighborsT b1 ns))"
  by pat_completeness auto

definition freshTrace :: "Board \<Rightarrow> Board \<Rightarrow> cellptr list \<Rightarrow> bool" where
  "freshTrace b b' tr = (distinct tr \<and> (\<forall>e\<in>set tr. \<not> revealedAt b e \<and> revealedAt b' e))"

section \<open>Termination of the reveal propagation\<close>

lemma filter_update_count:
  assumes "j < length xs" "\<not> P (xs ! j)" "P y"
  shows "Suc (length (filter (\<lambda>c. \<not> P c) (xs[j := y]))) = length (filter (\<lambda>c. \<not> P c) xs)"
  using assms
proof (induction xs arbitrary: j)
  case Nil
  then show ?case by simp
next
  case (Cons x xs)
  then show ?case by (cases j) auto
qed

lemma sum_list_map_update:
  fixes f :: "'a \<Rightarrow> nat"
  assumes "i < length xs" "Suc (f y) = f (xs ! i)"
  shows "Suc (sum_list (map f (xs[i := y]))) = sum_list (map f xs)"
  using assms
proof (induction xs arbitrary: i)
  case Nil
  then show ?case by simp
next
  case (Cons x xs)
  then show ?case by (cases i) auto
qed

lemma unrevealedCount_store:
  assumes "load b p = Inr c" "\<not> revealed c"
  shows "Suc (unrevealedCount (store b p (c\<lparr>revealed := True\<rparr>))) = unrevealedCount b"
proof -
  from assms(1) have v: "fst p < length (cells b)" "snd p < length (cells b ! fst p)"
    and c: "c = cells b ! fst p ! snd p"
    by (auto simp: load_def split: if_splits)
  have "Suc (length (filter (\<lambda>c. \<not> revealed c) ((cells b ! fst p)[snd p := c\<lparr>revealed := True\<rparr>])))
        = length (filter (\<lambda>c. \<not> revealed c) (cells b ! fst p))"
    using v(2) assms(2) c by (intro filter_update_count) auto
  then show ?thesis
    unfolding unrevealedCount_def store_def using v(1)
    by (simp add: sum_list_map_update)
qed

text \<open>
  Wherever the recursion is defined, it returns a board with no more unrevealed cells
  than it was given: the fact the nested call needs.
\<close>

lemma unrevealedCount_mono_dom:
  "PropagateReveals_revealNeighbors_dom (Inl (b, c)) \<Longrightarrow>
     PropagateReveals b c = Inr b' \<Longrightarrow> unrevealedCount b' \<le> unrevealedCount b"
  "PropagateReveals_revealNeighbors_dom (Inr (b, ns)) \<Longrightarrow>
     revealNeighbors b ns = Inr b'' \<Longrightarrow> unrevealedCount b'' \<le> unrevealedCount b"
proof (induction b c and b ns arbitrary: b' and b'' rule: PropagateReveals_revealNeighbors.pinduct)
  case (1 b)
  then show ?case by (simp add: PropagateReveals.psimps)
next
  case (2 b p)
  then show ?case
    by (auto simp: PropagateReveals.psimps split: sum.splits)
next
  case (3 b)
  then show ?case by (simp add: revealNeighbors.psimps)
next
  case (4 b n ns)
  from "4.prems" obtain c where c: "load b n = Inr c"
    by (auto simp: revealNeighbors.psimps(2)[OF "4.hyps"] split: sum.splits)
  show ?case
  proof (cases "revealed c")
    case True
    with 4 c show ?thesis
      by (auto simp: revealNeighbors.psimps(2)[OF "4.hyps"])
  next
    case False
    define b1 where "b1 = store b n (c\<lparr>revealed := True\<rparr>)"
    have lt: "unrevealedCount b1 < unrevealedCount b"
      using unrevealedCount_store[OF c False] by (simp add: b1_def)
    show ?thesis
    proof (cases "score c = 0")
      case True
      with "4.prems" c False obtain b2 where
        b2: "PropagateReveals b1 (Some n) = Inr b2" and r: "revealNeighbors b2 ns = Inr b''"
        by (auto simp: revealNeighbors.psimps(2)[OF "4.hyps"] b1_def Let_def split: sum.splits)
      have "unrevealedCount b2 \<le> unrevealedCount b1"
        using "4.IH"(2)[OF c False b1_def True b2] .
      moreover have "unrevealedCount b'' \<le> unrevealedCount b2"
        using "4.IH"(3)[OF c False b1_def True b2 r] .
      ultimately show ?thesis using lt by linarith
    next
      case nz: False
      with "4.prems" c False have r: "revealNeighbors b1 ns = Inr b''"
        by (auto simp: revealNeighbors.psimps(2)[OF "4.hyps"] b1_def Let_def)
      have "unrevealedCount b'' \<le> unrevealedCount b1"
        using "4.IH"(4)[OF c False b1_def nz r] .
      then show ?thesis using lt by linarith
    qed
  qed
qed

termination PropagateReveals
proof (relation propagateOrder, goal_cases)
  case 1
  then show ?case by (simp add: propagateOrder_def)
next
  case (2 b p x2 x2a)
  then show ?case by (simp add: propagateOrder_def)
next
  case (3 b n ns x2)
  then show ?case by (simp add: propagateOrder_def)
next
  case (4 b n ns x2 x)
  then show ?case using unrevealedCount_store[of b n x2] by (simp add: propagateOrder_def)
next
  case (5 b n ns x2 x x2a)
  then show ?case
    using unrevealedCount_store[of b n x2] unrevealedCount_mono_dom(1)[of x "Some n" x2a]
    by (simp add: propagateOrder_def)
next
  case (6 b n ns x2 x)
  then show ?case using unrevealedCount_store[of b n x2] by (simp add: propagateOrder_def)
qed

text \<open>Every argument is in the domain of the recursion: each call has its calls in the domain.\<close>

lemma PropagateReveals_total:
  "PropagateReveals_revealNeighbors_dom (Inl (b, c))"
  "PropagateReveals_revealNeighbors_dom (Inr (b, ns))"
  by (induction b c and b ns rule: PropagateReveals_revealNeighbors.induct)
     (auto intro: PropagateReveals_revealNeighbors.domintros)

text \<open>The traced propagation descends in the same order, and returns the same board.\<close>

lemma trace_erasure_dom:
  "PropagateRevealsT_revealNeighborsT_dom (Inl (b, c)) \<Longrightarrow>
     map_sum id fst (PropagateRevealsT b c) = PropagateReveals b c"
  "PropagateRevealsT_revealNeighborsT_dom (Inr (b, ns)) \<Longrightarrow>
     map_sum id fst (revealNeighborsT b ns) = revealNeighbors b ns"
proof (induction b c and b ns rule: PropagateRevealsT_revealNeighborsT.pinduct)
  case (1 b)
  then show ?case by (simp add: PropagateRevealsT.psimps)
next
  case (2 b p)
  show ?case
  proof (cases "load b p")
    case (Inl e)
    then show ?thesis by (simp add: PropagateRevealsT.psimps(2)[OF "2.hyps"])
  next
    case c: (Inr c)
    show ?thesis
    proof (cases "getNeighborCells b (location c)")
      case (Inl e)
      with c show ?thesis by (simp add: PropagateRevealsT.psimps(2)[OF "2.hyps"])
    next
      case (Inr neighbors)
      from "2.IH"[OF c Inr] c Inr show ?thesis
        by (cases "revealNeighborsT b neighbors")
           (auto simp: PropagateRevealsT.psimps(2)[OF "2.hyps"])
    qed
  qed
next
  case (3 b)
  then show ?case by (simp add: revealNeighborsT.psimps)
next
  case (4 b n ns)
  note ps = revealNeighborsT.psimps(2)[OF "4.hyps"]
  show ?case
  proof (cases "load b n")
    case (Inl e)
    then show ?thesis by (simp add: ps)
  next
    case c: (Inr c)
    show ?thesis
    proof (cases "revealed c")
      case True
      from "4.IH"(1)[OF c True] c True show ?thesis by (simp add: ps)
    next
      case False
      define b1 where "b1 = store b n (c\<lparr>revealed := True\<rparr>)"
      show ?thesis
      proof (cases "score c = 0")
        case nz: False
        from "4.IH"(4)[OF c False b1_def nz] c False nz show ?thesis
          by (simp add: ps b1_def)
      next
        case True
        note i2 = "4.IH"(2)[OF c False b1_def True]
        show ?thesis
        proof (cases "PropagateRevealsT b1 (Some n)")
          case (Inl e)
          with i2 have "PropagateReveals b1 (Some n) = Inl e" by simp
          with Inl c False True show ?thesis by (simp add: ps b1_def)
        next
          case (Inr r1)
          with i2 have p: "PropagateReveals b1 (Some n) = Inr (fst r1)" by simp
          from "4.IH"(3)[OF c False b1_def True Inr] Inr p c False True show ?thesis
            by (cases "revealNeighborsT (fst r1) ns") (auto simp: ps b1_def)
        qed
      qed
    qed
  qed
qed

termination PropagateRevealsT
proof (relation propagateOrder, goal_cases)
  case 1
  then show ?case by (simp add: propagateOrder_def)
next
  case (2 b p x2 x2a)
  then show ?case by (simp add: propagateOrder_def)
next
  case (3 b n ns x2)
  then show ?case by (simp add: propagateOrder_def)
next
  case (4 b n ns x2 x)
  then show ?case using unrevealedCount_store[of b n x2] by (simp add: propagateOrder_def)
next
  case (5 b n ns x2 x x2a)
  then have d: "PropagateRevealsT_revealNeighborsT_dom (Inl (x, Some n))"
    and r: "PropagateRevealsT x (Some n) = Inr x2a" by simp_all
  from trace_erasure_dom(1)[OF d] r
  have "PropagateReveals x (Some n) = Inr (fst x2a)" by simp
  from unrevealedCount_mono_dom(1)[OF PropagateReveals_total(1) this] 5
  show ?case
    using unrevealedCount_store[of b n x2] by (simp add: propagateOrder_def)
next
  case (6 b n ns x2 x)
  then show ?case using unrevealedCount_store[of b n x2] by (simp add: propagateOrder_def)
qed

section \<open>Lemmas\<close>

lemma load_eq: "load b p = (if inGrid b p then Inr (cellAt b p) else Inl InvalidAddress)"
  by (simp add: load_def inGrid_def cellAt_def)

lemma inGrid_gridOK: "gridOK b \<Longrightarrow> inGrid b p \<longleftrightarrow> fst p < nat (rows b) \<and> snd p < nat (cols b)"
  by (auto simp: gridOK_def inGrid_def)

lemma ptrOf_locOf [simp]: "ptrOf (locOf p) = p"
  by (simp add: ptrOf_def locOf_def)

lemma locOf_inject [simp]: "locOf p = locOf q \<longleftrightarrow> p = q"
  by (auto simp: locOf_def prod_eq_iff)

lemma ValidLocation_locOf: "gridOK b \<Longrightarrow> ValidLocation b (locOf p) \<longleftrightarrow> inGrid b p"
  by (auto simp: ValidLocation_def locOf_def inGrid_gridOK)

lemma ValidLocation_ptrOf:
  "gridOK b \<Longrightarrow> ValidLocation b l \<Longrightarrow> inGrid b (ptrOf l) \<and> locOf (ptrOf l) = l"
  by (auto simp: ValidLocation_def locOf_def ptrOf_def inGrid_gridOK split: if_splits)

lemma getCell_gridOK:
  "gridOK b \<Longrightarrow> getCell b l = Inr (if ValidLocation b l then Some (ptrOf l) else None)"
  by (auto simp: getCell_def ValidLocation_def ptrOf_def gridOK_def)

lemma collectNeighbors_gridOK:
  "gridOK b \<Longrightarrow>
   collectNeighbors b loc ls acc =
     Inr (acc @ map ptrOf (filter (\<lambda>l. l \<noteq> loc \<and> ValidLocation b l) ls))"
  by (induction ls arbitrary: acc) (auto simp: getCell_gridOK)

lemma getNeighborCells_gridOK:
  "gridOK b \<Longrightarrow> inGrid b p \<Longrightarrow>
   getNeighborCells b (locOf p) =
     Inr (map ptrOf (filter (\<lambda>l. l \<noteq> locOf p \<and> ValidLocation b l) (neighborLocs (locOf p))))"
  by (simp add: getNeighborCells_def getCell_gridOK ValidLocation_locOf collectNeighbors_gridOK)

lemma set_neighborLocs:
  "set (neighborLocs loc) = {l. \<bar>row l - row loc\<bar> \<le> 1 \<and> \<bar>col l - col loc\<bar> \<le> 1 \<and> Location.more l = ()}"
  apply (auto simp: neighborLocs_def)
  subgoal for l
    apply (rule bexI[of _ "row l"])
     apply (rule image_eqI[of _ _ "col l"])
    by auto
  done

lemma distinct_neighborLocs: "distinct (neighborLocs loc)"
proof -
  have r: "[row loc - 1 .. row loc + 1] = [row loc - 1, row loc, row loc + 1]"
    by (simp add: upto_rec1)
  have c: "[col loc - 1 .. col loc + 1] = [col loc - 1, col loc, col loc + 1]"
    by (simp add: upto_rec1)
  show ?thesis unfolding neighborLocs_def r c by simp
qed

lemma neighbors_set:
  assumes "gridOK b" "inGrid b p"
  shows "set (map ptrOf (filter (\<lambda>l. l \<noteq> locOf p \<and> ValidLocation b l) (neighborLocs (locOf p))))
          = {q. inGrid b q \<and> adjacent p q}" (is "?L = ?R")
proof
  show "?L \<subseteq> ?R"
  proof
    fix q assume "q \<in> ?L"
    then obtain l where l: "l \<in> set (neighborLocs (locOf p))" "l \<noteq> locOf p" "ValidLocation b l" "q = ptrOf l"
      by auto
    from ValidLocation_ptrOf[OF assms(1) l(3)] l(4) have q: "inGrid b q" "locOf q = l" by auto
    from l(1) have "\<bar>row l - row (locOf p)\<bar> \<le> 1 \<and> \<bar>col l - col (locOf p)\<bar> \<le> 1"
      by (simp add: set_neighborLocs)
    with q(2) l(2) have "adjacent p q"
      by (auto simp: adjacent_def locOf_def)
    with q(1) show "q \<in> ?R" by simp
  qed
next
  show "?R \<subseteq> ?L"
  proof
    fix q assume "q \<in> ?R"
    then have q: "inGrid b q" "adjacent p q" by auto
    have "locOf q \<in> set (neighborLocs (locOf p))"
      using q(2) by (auto simp: set_neighborLocs adjacent_def locOf_def)
    moreover have "locOf q \<noteq> locOf p" using q(2) by (auto simp: adjacent_def)
    moreover have "ValidLocation b (locOf q)" using q(1) assms(1) by (simp add: ValidLocation_locOf)
    ultimately have "ptrOf (locOf q) \<in> ?L"
      unfolding set_map set_filter by blast
    then show "q \<in> ?L" by simp
  qed
qed

lemma neighbors_distinct:
  assumes "gridOK b"
  shows "distinct (map ptrOf (filter (\<lambda>l. l \<noteq> locOf p \<and> ValidLocation b l) (neighborLocs (locOf p))))"
proof -
  have "inj_on ptrOf {l. ValidLocation b l}"
  proof (rule inj_onI)
    fix x y assume a: "x \<in> {l. ValidLocation b l}" "y \<in> {l. ValidLocation b l}" "ptrOf x = ptrOf y"
    have x: "locOf (ptrOf x) = x" using ValidLocation_ptrOf[OF assms, of x] a(1) by simp
    have y: "locOf (ptrOf y) = y" using ValidLocation_ptrOf[OF assms, of y] a(2) by simp
    from x y a(3) show "x = y" by metis
  qed
  then have "inj_on ptrOf (set (filter (\<lambda>l. l \<noteq> locOf p \<and> ValidLocation b l) (neighborLocs (locOf p))))"
    by (rule inj_on_subset) auto
  then show ?thesis
    by (simp add: distinct_map distinct_neighborLocs)
qed

lemma getNeighborCells_spec:
  assumes "gridOK b" "inGrid b p"
  shows "\<exists>ns. getNeighborCells b (locOf p) = Inr ns \<and> distinct ns
            \<and> set ns = {q. inGrid b q \<and> adjacent p q}"
  using getNeighborCells_gridOK[OF assms] neighbors_set[OF assms] neighbors_distinct[OF assms(1)]
  by auto

lemma gridOK_location: "gridOK b \<Longrightarrow> inGrid b p \<Longrightarrow> location (cellAt b p) = locOf p"
  unfolding gridOK_def by blast

lemma mapCells_eq_cells:
  assumes "mapCells f b' = mapCells f b"
  shows "length (cells b') = length (cells b)"
    and "r < length (cells b) \<Longrightarrow> length (cells b' ! r) = length (cells b ! r)"
    and "r < length (cells b) \<Longrightarrow> c < length (cells b ! r) \<Longrightarrow>
          f (cells b' ! r ! c) = f (cells b ! r ! c)"
proof -
  from assms have m: "map (map f) (cells b') = map (map f) (cells b)"
    by (auto simp: mapCells_def dest: arg_cong[where f = cells])
  from m show l: "length (cells b') = length (cells b)"
    by (rule map_eq_imp_length_eq)
  {
    assume r: "r < length (cells b)"
    from m have "map (map f) (cells b') ! r = map (map f) (cells b) ! r" by simp
    with r l have mr: "map f (cells b' ! r) = map f (cells b ! r)" by simp
    from mr show lr: "length (cells b' ! r) = length (cells b ! r)"
      by (rule map_eq_imp_length_eq)
    assume c: "c < length (cells b ! r)"
    from mr have "map f (cells b' ! r) ! c = map f (cells b ! r) ! c" by simp
    with c lr show "f (cells b' ! r ! c) = f (cells b ! r ! c)" by simp
  }
qed

lemma mapCells_eq_fields:
  assumes "mapCells f b' = mapCells f b"
  shows "rows b' = rows b" "cols b' = cols b" "mineCount b' = mineCount b"
    "safeRemaining b' = safeRemaining b" "initialized b' = initialized b"
    "explosionOccured b' = explosionOccured b" "mines b' = mines b" "difficulty b' = difficulty b"
proof -
  have "rows (mapCells f b') = rows (mapCells f b)" using assms by simp
  then show "rows b' = rows b" by (simp add: mapCells_def)
  have "cols (mapCells f b') = cols (mapCells f b)" using assms by simp
  then show "cols b' = cols b" by (simp add: mapCells_def)
  have "mineCount (mapCells f b') = mineCount (mapCells f b)" using assms by simp
  then show "mineCount b' = mineCount b" by (simp add: mapCells_def)
  have "safeRemaining (mapCells f b') = safeRemaining (mapCells f b)" using assms by simp
  then show "safeRemaining b' = safeRemaining b" by (simp add: mapCells_def)
  have "initialized (mapCells f b') = initialized (mapCells f b)" using assms by simp
  then show "initialized b' = initialized b" by (simp add: mapCells_def)
  have "explosionOccured (mapCells f b') = explosionOccured (mapCells f b)" using assms by simp
  then show "explosionOccured b' = explosionOccured b" by (simp add: mapCells_def)
  have "mines (mapCells f b') = mines (mapCells f b)" using assms by simp
  then show "mines b' = mines b" by (simp add: mapCells_def)
  have "difficulty (mapCells f b') = difficulty (mapCells f b)" using assms by simp
  then show "difficulty b' = difficulty b" by (simp add: mapCells_def)
qed

lemma mapCells_eq_inGrid:
  assumes "mapCells f b' = mapCells f b"
  shows "inGrid b' p = inGrid b p"
  using mapCells_eq_cells(1)[OF assms] mapCells_eq_cells(2)[OF assms, of "fst p"]
  by (auto simp: inGrid_def)

lemma mapCells_eq_cell:
  assumes "mapCells f b' = mapCells f b" "inGrid b p"
  shows "f (cellAt b' p) = f (cellAt b p)"
  using mapCells_eq_cells(3)[OF assms(1), of "fst p" "snd p"] assms(2)
  by (simp add: inGrid_def cellAt_def)

lemmas erase_cells = mapCells_eq_cells[where f = "\<lambda>c. c\<lparr>revealed := False\<rparr>", folded eraseRevealed_def]

lemmas erase_fields = mapCells_eq_fields[where f = "\<lambda>c. c\<lparr>revealed := False\<rparr>", folded eraseRevealed_def]

lemmas erase_inGrid = mapCells_eq_inGrid[where f = "\<lambda>c. c\<lparr>revealed := False\<rparr>", folded eraseRevealed_def]

lemma erase_cell:
  assumes "eraseRevealed b' = eraseRevealed b" "inGrid b p"
  shows "score (cellAt b' p) = score (cellAt b p)" "hasMine (cellAt b' p) = hasMine (cellAt b p)"
    "flagged (cellAt b' p) = flagged (cellAt b p)" "location (cellAt b' p) = location (cellAt b p)"
proof -
  let ?f = "\<lambda>c::cell. c\<lparr>revealed := False\<rparr>"
  from mapCells_eq_cell[OF assms(1)[unfolded eraseRevealed_def] assms(2)]
  have e: "?f (cellAt b' p) = ?f (cellAt b p)" .
  have "score (?f (cellAt b' p)) = score (?f (cellAt b p))" using e by simp
  then show "score (cellAt b' p) = score (cellAt b p)" by simp
  have "hasMine (?f (cellAt b' p)) = hasMine (?f (cellAt b p))" using e by simp
  then show "hasMine (cellAt b' p) = hasMine (cellAt b p)" by simp
  have "flagged (?f (cellAt b' p)) = flagged (?f (cellAt b p))" using e by simp
  then show "flagged (cellAt b' p) = flagged (cellAt b p)" by simp
  have "location (?f (cellAt b' p)) = location (?f (cellAt b p))" using e by simp
  then show "location (cellAt b' p) = location (cellAt b p)" by simp
qed

lemma erase_gridOK:
  assumes "eraseRevealed b' = eraseRevealed b" "gridOK b"
  shows "gridOK b'"
  unfolding gridOK_def
proof (intro conjI allI impI)
  note f = erase_fields(1,2)[OF assms(1)]
  show "0 \<le> rows b'" "0 \<le> cols b'"
    using assms(2) by (simp_all add: f gridOK_def)
  show "length (cells b') = nat (rows b')"
    using assms(2) erase_cells(1)[OF assms(1)] by (simp add: f gridOK_def)
  show "length (cells b' ! r) = nat (cols b')" if "r < nat (rows b')" for r
    using that assms(2) erase_cells(2)[OF assms(1), of r] by (simp add: f gridOK_def)
  show "location (cellAt b' p) = locOf p" if "inGrid b' p" for p
    using that gridOK_location[OF assms(2), of p] erase_cell(4)[OF assms(1), of p]
      erase_inGrid[OF assms(1), of p]
    by simp
qed

lemma inGrid_store [simp]: "inGrid (store b n c) q = inGrid b q"
  by (cases "fst q = fst n") (auto simp: inGrid_def store_def nth_list_update)

lemma cellAt_store:
  "inGrid b n \<Longrightarrow> cellAt (store b n c) q = (if q = n then c else cellAt b q)"
  by (auto simp: inGrid_def cellAt_def store_def nth_list_update prod_eq_iff)

lemma update_same_map:
  assumes "j < length ys" "f y = f (ys ! j)"
  shows "map f (ys[j := y]) = map f ys"
  using assms by (intro nth_equalityI) (auto simp: nth_list_update)

lemma erase_store_revealed:
  assumes "inGrid b n"
  shows "eraseRevealed (store b n ((cellAt b n)\<lparr>revealed := v\<rparr>)) = eraseRevealed b"
proof -
  let ?f = "\<lambda>c::cell. c\<lparr>revealed := False\<rparr>"
  have 1: "map ?f ((cells b ! fst n)[snd n := (cellAt b n)\<lparr>revealed := v\<rparr>]) = map ?f (cells b ! fst n)"
    using assms by (intro update_same_map[where f = ?f]) (simp_all add: inGrid_def cellAt_def)
  have "map (map ?f) ((cells b)[fst n := (cells b ! fst n)[snd n := (cellAt b n)\<lparr>revealed := v\<rparr>]])
        = map (map ?f) (cells b)"
    using assms 1 by (intro update_same_map[where f = "map ?f"]) (simp_all add: inGrid_def)
  then show ?thesis by (simp add: eraseRevealed_def mapCells_def store_def)
qed

lemma revealedAt_store:
  "inGrid b n \<Longrightarrow>
   revealedAt (store b n ((cellAt b n)\<lparr>revealed := True\<rparr>)) q = (q = n \<or> revealedAt b q)"
  by (auto simp: revealedAt_def cellAt_store)

lemma floods_refl: "floods b b"
  by (simp add: floods_def)

lemma floods_trans: "floods a b \<Longrightarrow> floods b c \<Longrightarrow> floods a c"
  by (auto simp: floods_def)

lemma floods_store: "inGrid b n \<Longrightarrow> floods b (store b n ((cellAt b n)\<lparr>revealed := True\<rparr>))"
  by (simp add: floods_def erase_store_revealed revealedAt_store)

lemma zeroReach_erase:
  assumes "eraseRevealed b' = eraseRevealed b"
  shows "zeroReach b' p = zeroReach b p"
proof (intro set_eqI iffI)
  fix q assume "q \<in> zeroReach b' p"
  then show "q \<in> zeroReach b p"
  proof induction
    case start
    show ?case by (rule zeroReach.start)
  next
    case (step z q)
    then show ?case
      using erase_inGrid[OF assms, of q] erase_cell(1)[OF assms, of q]
      by (auto intro: zeroReach.step)
  qed
next
  fix q assume "q \<in> zeroReach b p"
  then show "q \<in> zeroReach b' p"
  proof induction
    case start
    show ?case by (rule zeroReach.start)
  next
    case (step z q)
    then show ?case
      using erase_inGrid[OF assms, of q] erase_cell(1)[OF assms, of q]
      by (auto intro: zeroReach.step)
  qed
qed

lemma nbrOf_erase: "eraseRevealed b' = eraseRevealed b \<Longrightarrow> nbrOf b' S = nbrOf b S"
  using erase_inGrid[of b' b] by (simp add: nbrOf_def)

lemma zeroReach_trans:
  assumes "n \<in> zeroReach b p" "q \<in> zeroReach b n"
  shows "q \<in> zeroReach b p"
  using assms(2)
proof induction
  case start
  show ?case by (rule assms(1))
next
  case (step z q)
  then show ?case by (auto intro: zeroReach.step)
qed

lemma nbrOf_mono: "S \<subseteq> T \<Longrightarrow> nbrOf b S \<subseteq> nbrOf b T"
  by (auto simp: nbrOf_def)

lemma floods_facts:
  assumes "floods b b'"
  shows "inGrid b' q = inGrid b q"
    and "inGrid b q \<Longrightarrow> score (cellAt b' q) = score (cellAt b q)"
    and "zeroReach b' p = zeroReach b p"
    and "nbrOf b' S = nbrOf b S"
    and "revealedAt b q \<Longrightarrow> revealedAt b' q"
    and "gridOK b \<Longrightarrow> gridOK b'"
proof -
  from assms have e: "eraseRevealed b' = eraseRevealed b" and m: "\<forall>p. revealedAt b p \<longrightarrow> revealedAt b' p"
    by (simp_all add: floods_def)
  show "inGrid b' q = inGrid b q" by (rule erase_inGrid[OF e])
  show "inGrid b q \<Longrightarrow> score (cellAt b' q) = score (cellAt b q)" by (rule erase_cell(1)[OF e])
  show "zeroReach b' p = zeroReach b p" by (rule zeroReach_erase[OF e])
  show "nbrOf b' S = nbrOf b S" by (rule nbrOf_erase[OF e])
  show "revealedAt b q \<Longrightarrow> revealedAt b' q" using m by blast
  show "gridOK b \<Longrightarrow> gridOK b'" by (rule erase_gridOK[OF e])
qed

lemma closedNew_refl: "closedNew b b"
  unfolding closedNew_def by blast

lemma neighborsPost_Nil: "neighborsPost b [] b"
  by (simp add: neighborsPost_def floods_refl closedNew_refl)

lemma neighborsPost_skip:
  assumes "revealedAt b n" "neighborsPost b ns b'"
  shows "neighborsPost b (n # ns) b'"
proof -
  from assms(2) have f: "floods b b'" by (simp add: neighborsPost_def)
  have "revealedAt b' n" using floods_facts(5)[OF f assms(1)] .
  with assms(2) show ?thesis
    unfolding neighborsPost_def by auto
qed

lemma neighborsPost_nonzero:
  assumes n: "inGrid b n" "\<not> revealedAt b n" "score (cellAt b n) \<noteq> 0"
    and b1: "b1 = store b n ((cellAt b n)\<lparr>revealed := True\<rparr>)"
    and post: "neighborsPost b1 ns b'"
  shows "neighborsPost b (n # ns) b'"
proof -
  have f01: "floods b b1" unfolding b1 by (rule floods_store[OF n(1)])
  have r1: "\<And>q. revealedAt b1 q = (q = n \<or> revealedAt b q)"
    unfolding b1 by (rule revealedAt_store[OF n(1)])
  from post have f1: "floods b1 b'" and c1: "closedNew b1 b'"
    and a1: "\<forall>m\<in>set ns. revealedAt b' m"
    and s1: "\<forall>q. revealedAt b' q \<and> \<not> revealedAt b1 q \<longrightarrow>
            q \<in> set ns \<or> (\<exists>m\<in>set ns. score (cellAt b1 m) = 0 \<and> q \<in> nbrOf b1 (zeroReach b1 m))"
    by (simp_all add: neighborsPost_def)
  have f: "floods b b'" by (rule floods_trans[OF f01 f1])
  have in1: "\<And>q. inGrid b1 q = inGrid b q" by (rule floods_facts(1)[OF f01])
  have in': "\<And>q. inGrid b' q = inGrid b q" by (rule floods_facts(1)[OF f])
  have sc1: "\<And>q. inGrid b q \<Longrightarrow> score (cellAt b1 q) = score (cellAt b q)"
    by (rule floods_facts(2)[OF f01])
  have zr: "\<And>p. zeroReach b1 p = zeroReach b p" by (rule floods_facts(3)[OF f01])
  have nb: "\<And>S. nbrOf b1 S = nbrOf b S" by (rule floods_facts(4)[OF f01])
  have cl: "closedNew b b'"
    unfolding closedNew_def
  proof (intro allI impI, elim conjE)
    fix z q assume z: "revealedAt b' z" "\<not> revealedAt b z" "score (cellAt b z) = 0"
      and q: "inGrid b q" "adjacent z q"
    from z(3) n(3) have "z \<noteq> n" by auto
    with z(2) have nz: "\<not> revealedAt b1 z" by (simp add: r1)
    from z(1) have "inGrid b z" by (simp add: revealedAt_def in')
    then have "score (cellAt b1 z) = 0" using z(3) by (simp add: sc1)
    with c1 z(1) nz q show "revealedAt b' q"
      unfolding closedNew_def in1 by blast
  qed
  have al: "\<forall>m\<in>set (n # ns). revealedAt b' m"
    using a1 floods_facts(5)[OF f1, of n] by (simp add: r1)
  have so: "\<forall>q. revealedAt b' q \<and> \<not> revealedAt b q \<longrightarrow>
            q \<in> set (n # ns) \<or> (\<exists>m\<in>set (n # ns). score (cellAt b m) = 0 \<and> q \<in> nbrOf b (zeroReach b m))"
  proof (intro allI impI, elim conjE)
    fix q assume q: "revealedAt b' q" "\<not> revealedAt b q"
    show "q \<in> set (n # ns) \<or> (\<exists>m\<in>set (n # ns). score (cellAt b m) = 0 \<and> q \<in> nbrOf b (zeroReach b m))"
    proof (cases "q = n")
      case True
      then show ?thesis by simp
    next
      case False
      with q(2) have "\<not> revealedAt b1 q" by (simp add: r1)
      with s1 q(1) consider "q \<in> set ns"
        | m where "m \<in> set ns" "score (cellAt b1 m) = 0" "q \<in> nbrOf b1 (zeroReach b1 m)"
        by blast
      then show ?thesis
      proof cases
        case 1
        then show ?thesis by simp
      next
        case 2
        from a1 2(1) have "inGrid b m" by (auto simp: revealedAt_def in')
        with 2 have "score (cellAt b m) = 0" "q \<in> nbrOf b (zeroReach b m)"
          by (simp_all add: sc1 zr nb)
        with 2(1) show ?thesis by auto
      qed
    qed
  qed
  show ?thesis unfolding neighborsPost_def using f cl al so by blast
qed

lemma neighborsPost_zero:
  assumes n: "inGrid b n" "\<not> revealedAt b n" "score (cellAt b n) = 0"
    and b1: "b1 = store b n ((cellAt b n)\<lparr>revealed := True\<rparr>)"
    and post1: "propagatePost b1 n b2"
    and post2: "neighborsPost b2 ns b'"
  shows "neighborsPost b (n # ns) b'"
proof -
  have f01: "floods b b1" unfolding b1 by (rule floods_store[OF n(1)])
  have r1: "\<And>q. revealedAt b1 q = (q = n \<or> revealedAt b q)"
    unfolding b1 by (rule revealedAt_store[OF n(1)])
  from post1 have f12: "floods b1 b2" and c12: "closedNew b1 b2"
    and a12: "\<forall>q. inGrid b1 q \<and> adjacent n q \<longrightarrow> revealedAt b2 q"
    and s12: "\<forall>q. revealedAt b2 q \<and> \<not> revealedAt b1 q \<longrightarrow> q \<in> nbrOf b1 (zeroReach b1 n)"
    by (simp_all add: propagatePost_def)
  from post2 have f2: "floods b2 b'" and c2: "closedNew b2 b'"
    and a2: "\<forall>m\<in>set ns. revealedAt b' m"
    and s2: "\<forall>q. revealedAt b' q \<and> \<not> revealedAt b2 q \<longrightarrow>
            q \<in> set ns \<or> (\<exists>m\<in>set ns. score (cellAt b2 m) = 0 \<and> q \<in> nbrOf b2 (zeroReach b2 m))"
    by (simp_all add: neighborsPost_def)
  have f02: "floods b b2" by (rule floods_trans[OF f01 f12])
  have f: "floods b b'" by (rule floods_trans[OF f02 f2])
  have in1: "\<And>q. inGrid b1 q = inGrid b q" by (rule floods_facts(1)[OF f01])
  have in2: "\<And>q. inGrid b2 q = inGrid b q" by (rule floods_facts(1)[OF f02])
  have in': "\<And>q. inGrid b' q = inGrid b q" by (rule floods_facts(1)[OF f])
  have sc1: "\<And>q. inGrid b q \<Longrightarrow> score (cellAt b1 q) = score (cellAt b q)"
    by (rule floods_facts(2)[OF f01])
  have sc2: "\<And>q. inGrid b q \<Longrightarrow> score (cellAt b2 q) = score (cellAt b q)"
    by (rule floods_facts(2)[OF f02])
  have zr1: "\<And>p. zeroReach b1 p = zeroReach b p" by (rule floods_facts(3)[OF f01])
  have nb1: "\<And>S. nbrOf b1 S = nbrOf b S" by (rule floods_facts(4)[OF f01])
  have zr2: "\<And>p. zeroReach b2 p = zeroReach b p" by (rule floods_facts(3)[OF f02])
  have nb2: "\<And>S. nbrOf b2 S = nbrOf b S" by (rule floods_facts(4)[OF f02])
  have up: "\<And>q. revealedAt b2 q \<Longrightarrow> revealedAt b' q" by (rule floods_facts(5)[OF f2])
  have cl: "closedNew b b'"
    unfolding closedNew_def
  proof (intro allI impI, elim conjE)
    fix z q assume z: "revealedAt b' z" "\<not> revealedAt b z" "score (cellAt b z) = 0"
      and q: "inGrid b q" "adjacent z q"
    from z(1) have zin: "inGrid b z" by (simp add: revealedAt_def in')
    show "revealedAt b' q"
    proof (cases "z = n")
      case True
      with a12 q have "revealedAt b2 q" unfolding in1 by blast
      then show ?thesis by (rule up)
    next
      case False
      with z(2) have nz1: "\<not> revealedAt b1 z" by (simp add: r1)
      show ?thesis
      proof (cases "revealedAt b2 z")
        case True
        have "score (cellAt b1 z) = 0" using z(3) zin by (simp add: sc1)
        with c12 True nz1 q have "revealedAt b2 q"
          unfolding closedNew_def in1 by blast
        then show ?thesis by (rule up)
      next
        case False
        have "score (cellAt b2 z) = 0" using z(3) zin by (simp add: sc2)
        with c2 z(1) False q show ?thesis
          unfolding closedNew_def in2 by blast
      qed
    qed
  qed
  have "revealedAt b1 n" by (simp add: r1)
  then have "revealedAt b2 n" by (rule floods_facts(5)[OF f12])
  then have "revealedAt b' n" by (rule up)
  with a2 have al: "\<forall>m\<in>set (n # ns). revealedAt b' m" by simp
  have so: "\<forall>q. revealedAt b' q \<and> \<not> revealedAt b q \<longrightarrow>
            q \<in> set (n # ns) \<or> (\<exists>m\<in>set (n # ns). score (cellAt b m) = 0 \<and> q \<in> nbrOf b (zeroReach b m))"
  proof (intro allI impI, elim conjE)
    fix q assume q: "revealedAt b' q" "\<not> revealedAt b q"
    show "q \<in> set (n # ns) \<or> (\<exists>m\<in>set (n # ns). score (cellAt b m) = 0 \<and> q \<in> nbrOf b (zeroReach b m))"
    proof (cases "q = n")
      case True
      then show ?thesis by simp
    next
      case qn: False
      with q(2) have nq1: "\<not> revealedAt b1 q" by (simp add: r1)
      show ?thesis
      proof (cases "revealedAt b2 q")
        case True
        with s12 nq1 have "q \<in> nbrOf b1 (zeroReach b1 n)" by blast
        then have "q \<in> nbrOf b (zeroReach b n)" by (simp add: zr1 nb1)
        with n(3) show ?thesis by auto
      next
        case False
        with s2 q(1) consider "q \<in> set ns"
          | m where "m \<in> set ns" "score (cellAt b2 m) = 0" "q \<in> nbrOf b2 (zeroReach b2 m)"
          by blast
        then show ?thesis
        proof cases
          case 1
          then show ?thesis by simp
        next
          case 2
          from a2 2(1) have "inGrid b m" by (auto simp: revealedAt_def in')
          with 2 have "score (cellAt b m) = 0" "q \<in> nbrOf b (zeroReach b m)"
            by (simp_all add: sc2 zr2 nb2)
          with 2(1) show ?thesis by auto
        qed
      qed
    qed
  qed
  show ?thesis unfolding neighborsPost_def using f cl al so by blast
qed

lemma propagatePost_of_neighbors:
  assumes ns: "set ns = {q. inGrid b q \<and> adjacent p q}"
    and post: "neighborsPost b ns b'"
  shows "propagatePost b p b'"
proof -
  from post have f: "floods b b'" and c: "closedNew b b'"
    and a: "\<forall>m\<in>set ns. revealedAt b' m"
    and s: "\<forall>q. revealedAt b' q \<and> \<not> revealedAt b q \<longrightarrow>
            q \<in> set ns \<or> (\<exists>m\<in>set ns. score (cellAt b m) = 0 \<and> q \<in> nbrOf b (zeroReach b m))"
    by (simp_all add: neighborsPost_def)
  have a': "\<forall>q. inGrid b q \<and> adjacent p q \<longrightarrow> revealedAt b' q"
    using a ns by auto
  have s': "\<forall>q. revealedAt b' q \<and> \<not> revealedAt b q \<longrightarrow> q \<in> nbrOf b (zeroReach b p)"
  proof (intro allI impI, elim conjE)
    fix q assume q: "revealedAt b' q" "\<not> revealedAt b q"
    with s consider "q \<in> set ns"
      | m where "m \<in> set ns" "score (cellAt b m) = 0" "q \<in> nbrOf b (zeroReach b m)"
      by blast
    then show "q \<in> nbrOf b (zeroReach b p)"
    proof cases
      case 1
      with ns have "inGrid b q" "adjacent p q" by auto
      then show ?thesis
        unfolding nbrOf_def using zeroReach.start[of p b] by blast
    next
      case 2
      from 2(1) ns have "inGrid b m" "adjacent p m" by auto
      with 2(2) have "m \<in> zeroReach b p"
        by (intro zeroReach.step[OF zeroReach.start])
      then have "zeroReach b m \<subseteq> zeroReach b p"
        using zeroReach_trans by blast
      from nbrOf_mono[OF this] 2(3) show ?thesis by blast
    qed
  qed
  show ?thesis unfolding propagatePost_def using f c a' s' by blast
qed

lemma propagate_correct:
  "gridOK b \<Longrightarrow> (\<forall>p. c = Some p \<longrightarrow> inGrid b p) \<Longrightarrow>
     \<exists>b'. PropagateReveals b c = Inr b' \<and> (\<forall>p. c = Some p \<longrightarrow> propagatePost b p b')"
  "gridOK b \<Longrightarrow> (\<forall>n\<in>set ns. inGrid b n) \<Longrightarrow>
     \<exists>b'. revealNeighbors b ns = Inr b' \<and> neighborsPost b ns b'"
proof (induction b c and b ns rule: PropagateReveals_revealNeighbors.induct)
  case (1 b)
  then show ?case by simp
next
  case (2 b p)
  then have p: "inGrid b p" by simp
  have ld: "load b p = Inr (cellAt b p)" using p by (simp add: load_eq)
  have loc: "location (cellAt b p) = locOf p" by (rule gridOK_location[OF "2.prems"(1) p])
  from getNeighborCells_spec[OF "2.prems"(1) p] obtain ns where
    ns: "getNeighborCells b (locOf p) = Inr ns" "set ns = {q. inGrid b q \<and> adjacent p q}"
    by blast
  have "\<forall>n\<in>set ns. inGrid b n" using ns(2) by simp
  with "2.IH"[OF ld, of ns] ns(1) loc "2.prems"(1) obtain b' where
    b': "revealNeighbors b ns = Inr b'" "neighborsPost b ns b'"
    by auto
  have "PropagateReveals b (Some p) = Inr b'"
    using ld loc ns(1) b'(1) by simp
  moreover have "propagatePost b p b'" by (rule propagatePost_of_neighbors[OF ns(2) b'(2)])
  ultimately show ?case by simp
next
  case (3 b)
  then show ?case by (simp add: neighborsPost_Nil)
next
  case (4 b n ns)
  then have n: "inGrid b n" and rest: "\<forall>m\<in>set ns. inGrid b m" by simp_all
  have ld: "load b n = Inr (cellAt b n)" using n by (simp add: load_eq)
  show ?case
  proof (cases "revealed (cellAt b n)")
    case True
    from "4.IH"(1)[OF ld True "4.prems"(1) rest] obtain b' where
      b': "revealNeighbors b ns = Inr b'" "neighborsPost b ns b'" by blast
    have "revealedAt b n" using n True by (simp add: revealedAt_def)
    then have "neighborsPost b (n # ns) b'" using b'(2) by (rule neighborsPost_skip)
    moreover have "revealNeighbors b (n # ns) = Inr b'" using ld True b'(1) by simp
    ultimately show ?thesis by blast
  next
    case False
    define b1 where "b1 = store b n ((cellAt b n)\<lparr>revealed := True\<rparr>)"
    have nr: "\<not> revealedAt b n" using False by (simp add: revealedAt_def)
    have f01: "floods b b1" unfolding b1_def by (rule floods_store[OF n])
    have g1: "gridOK b1" using floods_facts(6)[OF f01 "4.prems"(1)] .
    have in1: "\<And>q. inGrid b1 q = inGrid b q" by (rule floods_facts(1)[OF f01])
    show ?thesis
    proof (cases "score (cellAt b n) = 0")
      case True
      have "\<forall>p. Some n = Some p \<longrightarrow> inGrid b1 p" using n by (simp add: in1)
      from "4.IH"(2)[OF ld False b1_def True g1 this] obtain b2 where
        b2: "PropagateReveals b1 (Some n) = Inr b2" "propagatePost b1 n b2" by auto
      from b2(2) have f12: "floods b1 b2" by (simp add: propagatePost_def)
      have g2: "gridOK b2" using floods_facts(6)[OF f12 g1] .
      have "\<forall>m\<in>set ns. inGrid b2 m" using rest by (simp add: floods_facts(1)[OF f12] in1)
      from "4.IH"(3)[OF ld False b1_def True b2(1) g2 this] obtain b' where
        b': "revealNeighbors b2 ns = Inr b'" "neighborsPost b2 ns b'" by blast
      have "neighborsPost b (n # ns) b'"
        by (rule neighborsPost_zero[OF n nr True b1_def b2(2) b'(2)])
      moreover have "revealNeighbors b (n # ns) = Inr b'"
        using ld False True b2(1) b'(1) by (simp add: b1_def)
      ultimately show ?thesis by blast
    next
      case nz: False
      have "\<forall>m\<in>set ns. inGrid b1 m" using rest by (simp add: in1)
      from "4.IH"(4)[OF ld False b1_def nz g1 this] obtain b' where
        b': "revealNeighbors b1 ns = Inr b'" "neighborsPost b1 ns b'" by blast
      have "neighborsPost b (n # ns) b'"
        by (rule neighborsPost_nonzero[OF n nr nz b1_def b'(2)])
      moreover have "revealNeighbors b (n # ns) = Inr b'"
        using ld False nz b'(1) by (simp add: b1_def)
      ultimately show ?thesis by blast
    qed
  qed
qed

lemma finite_adjacent: "finite {q. adjacent p q}"
proof (rule finite_subset)
  show "{q. adjacent p q} \<subseteq> {.. fst p + 1} \<times> {.. snd p + 1}"
    by (auto simp: adjacent_def)
  show "finite ({.. fst p + 1} \<times> {.. snd p + 1})" by simp
qed

lemma finite_mineNbrs: "finite (mineNbrs b p)"
  by (rule finite_subset[OF _ finite_adjacent[of p]]) (auto simp: mineNbrs_def)

lemma zero_score_no_mine_nbr:
  assumes "scoresOK b" "inGrid b z" "score (cellAt b z) = 0" "inGrid b q" "adjacent z q"
  shows "\<not> hasMine (cellAt b q)"
proof
  assume "hasMine (cellAt b q)"
  with assms(4,5) have "q \<in> mineNbrs b z" by (simp add: mineNbrs_def)
  moreover from assms(1,2,3) have "card (mineNbrs b z) = 0"
    unfolding scoresOK_def by fastforce
  ultimately show False using finite_mineNbrs[of b z] by auto
qed

lemma mineNbrs_erase:
  assumes "eraseRevealed b' = eraseRevealed b"
  shows "mineNbrs b' p = mineNbrs b p"
  using erase_inGrid[OF assms] erase_cell(2)[OF assms]
  unfolding mineNbrs_def by blast

lemma scoresOK_erase:
  assumes "eraseRevealed b' = eraseRevealed b" "scoresOK b"
  shows "scoresOK b'"
  using assms(2) erase_inGrid[OF assms(1)] erase_cell(1)[OF assms(1)] mineNbrs_erase[OF assms(1)]
  unfolding scoresOK_def by metis

lemma floods_hasMine:
  "floods b b' \<Longrightarrow> inGrid b q \<Longrightarrow> hasMine (cellAt b' q) = hasMine (cellAt b q)"
  unfolding floods_def using erase_cell(2) by blast

lemma floods_flagged:
  "floods b b' \<Longrightarrow> inGrid b q \<Longrightarrow> flagged (cellAt b' q) = flagged (cellAt b q)"
  unfolding floods_def using erase_cell(3) by blast

text \<open>Revealing a cell that is a mine or has a non-zero score keeps the zeros closed.\<close>

lemma closedZeros_floods_other:
  assumes f: "floods b b'" and c: "closedZeros b"
    and new: "\<forall>z. revealedAt b' z \<and> \<not> revealedAt b z \<longrightarrow>
                 score (cellAt b z) \<noteq> 0 \<or> hasMine (cellAt b z)
                 \<or> (\<forall>q. inGrid b q \<and> adjacent z q \<longrightarrow> revealedAt b' q)"
  shows "closedZeros b'"
  unfolding closedZeros_def
proof (intro allI impI, elim conjE)
  fix z q assume z: "revealedAt b' z" "score (cellAt b' z) = 0" "\<not> hasMine (cellAt b' z)"
    and q: "inGrid b' q" "adjacent z q"
  have in': "\<And>q. inGrid b' q = inGrid b q" by (rule floods_facts(1)[OF f])
  from z(1) have zin: "inGrid b z" by (simp add: revealedAt_def in')
  have z0: "score (cellAt b z) = 0" using z(2) floods_facts(2)[OF f zin] by simp
  have zm: "\<not> hasMine (cellAt b z)" using z(3) floods_hasMine[OF f zin] by simp
  from q have qin: "inGrid b q" by (simp add: in')
  show "revealedAt b' q"
  proof (cases "revealedAt b z")
    case True
    with c z0 zm qin q(2) have "revealedAt b q" unfolding closedZeros_def by blast
    then show ?thesis by (rule floods_facts(5)[OF f])
  next
    case False
    with new z(1) z0 zm qin q(2) show ?thesis by blast
  qed
qed

lemma Click_unfold:
  assumes "gridOK b" "inGrid b p"
  shows "Click b (locOf p) =
    (if flagged (cellAt b p) then Inr b
     else if revealed (cellAt b p) then Inr b
     else if hasMine (cellAt b p) then
       Inr (store b p ((cellAt b p)\<lparr>revealed := True\<rparr>)\<lparr>explosionOccured := True\<rparr>)
     else if score (cellAt b p) = 0 then
       PropagateReveals (store b p ((cellAt b p)\<lparr>revealed := True\<rparr>)) (Some p)
     else Inr (store b p ((cellAt b p)\<lparr>revealed := True\<rparr>)))"
  using assms
  by (simp add: Click_def getCell_gridOK ValidLocation_locOf load_eq Let_def)

lemma Click_outside:
  assumes "gridOK b" "\<not> ValidLocation b l"
  shows "Click b l = Inr b"
  using assms by (simp add: Click_def getCell_gridOK)

lemma Click_zero_spec:
  assumes g: "gridOK b" and s: "scoresOK b" and cz: "closedZeros b" and p: "inGrid b p"
    and c: "\<not> flagged (cellAt b p)" "\<not> revealed (cellAt b p)" "\<not> hasMine (cellAt b p)"
           "score (cellAt b p) = 0"
  shows "\<exists>b'. Click b (locOf p) = Inr b' \<and> floods b b' \<and> closedZeros b'
            \<and> (\<forall>q. revealedAt b' q \<longleftrightarrow> revealedAt b q \<or> q \<in> floodSet b p)"
proof -
  define b1 where "b1 = store b p ((cellAt b p)\<lparr>revealed := True\<rparr>)"
  have f01: "floods b b1" unfolding b1_def by (rule floods_store[OF p])
  have r1: "\<And>q. revealedAt b1 q = (q = p \<or> revealedAt b q)"
    unfolding b1_def by (rule revealedAt_store[OF p])
  have g1: "gridOK b1" by (rule floods_facts(6)[OF f01 g])
  have in1: "\<And>q. inGrid b1 q = inGrid b q" by (rule floods_facts(1)[OF f01])
  from propagate_correct(1)[OF g1, of "Some p"] p obtain b' where
    b': "PropagateReveals b1 (Some p) = Inr b'" and post: "propagatePost b1 p b'"
    by (auto simp: in1)
  from post have f1: "floods b1 b'" and c1: "closedNew b1 b'"
    and a1: "\<forall>q. inGrid b1 q \<and> adjacent p q \<longrightarrow> revealedAt b' q"
    and s1: "\<forall>q. revealedAt b' q \<and> \<not> revealedAt b1 q \<longrightarrow> q \<in> nbrOf b1 (zeroReach b1 p)"
    by (simp_all add: propagatePost_def)
  have f: "floods b b'" by (rule floods_trans[OF f01 f1])
  have in': "\<And>q. inGrid b' q = inGrid b q" by (rule floods_facts(1)[OF f])
  have sc1: "\<And>q. inGrid b q \<Longrightarrow> score (cellAt b1 q) = score (cellAt b q)"
    by (rule floods_facts(2)[OF f01])
  have zr1: "zeroReach b1 p = zeroReach b p" by (rule floods_facts(3)[OF f01])
  have nb1: "\<And>S. nbrOf b1 S = nbrOf b S" by (rule floods_facts(4)[OF f01])
  have up: "\<And>q. revealedAt b q \<Longrightarrow> revealedAt b' q" by (rule floods_facts(5)[OF f])
  have click: "Click b (locOf p) = Inr b'"
    using c b' by (simp add: Click_unfold[OF g p] b1_def)
  have cz': "closedZeros b'"
  proof (rule closedZeros_floods_other[OF f cz], intro allI impI, elim conjE)
    fix z assume z: "revealedAt b' z" "\<not> revealedAt b z"
    show "score (cellAt b z) \<noteq> 0 \<or> hasMine (cellAt b z)
           \<or> (\<forall>q. inGrid b q \<and> adjacent z q \<longrightarrow> revealedAt b' q)"
    proof (cases "z = p")
      case True
      with a1 show ?thesis unfolding in1 by blast
    next
      case False
      with z(2) have nz: "\<not> revealedAt b1 z" by (simp add: r1)
      from z(1) have zin: "inGrid b z" by (simp add: revealedAt_def in')
      show ?thesis
      proof (cases "score (cellAt b z) = 0")
        case True
        then have "score (cellAt b1 z) = 0" using zin by (simp add: sc1)
        with c1 z(1) nz have "\<forall>q. inGrid b q \<and> adjacent z q \<longrightarrow> revealedAt b' q"
          unfolding closedNew_def in1 by blast
        then show ?thesis by blast
      next
        case False
        then show ?thesis by blast
      qed
    qed
  qed
  have reach: "revealedAt b' z \<and> inGrid b z \<and> score (cellAt b z) = 0 \<and> \<not> hasMine (cellAt b z)"
    if "z \<in> zeroReach b p" for z
    using that
  proof induction
    case start
    have "revealedAt b1 p" by (simp add: r1)
    then have "revealedAt b' p" by (rule floods_facts(5)[OF f1])
    with p c show ?case by simp
  next
    case (step z q)
    then have z: "revealedAt b' z" "inGrid b z" "score (cellAt b z) = 0" "\<not> hasMine (cellAt b z)"
      by simp_all
    have z': "score (cellAt b' z) = 0" "\<not> hasMine (cellAt b' z)"
      using z floods_facts(2)[OF f z(2)] floods_hasMine[OF f z(2)] by simp_all
    from cz' z(1) z' step.hyps(2,3) have "revealedAt b' q"
      unfolding closedZeros_def in' by blast
    moreover have "\<not> hasMine (cellAt b q)"
      by (rule zero_score_no_mine_nbr[OF s z(2) z(3) step.hyps(2,3)])
    ultimately show ?case using step.hyps by simp
  qed
  have "revealedAt b' q \<longleftrightarrow> revealedAt b q \<or> q \<in> floodSet b p" for q
  proof
    assume q: "revealedAt b' q"
    show "revealedAt b q \<or> q \<in> floodSet b p"
    proof (cases "revealedAt b q \<or> q = p")
      case True
      then show ?thesis using zeroReach.start[of p b] by (auto simp: floodSet_def)
    next
      case False
      then have "\<not> revealedAt b1 q" by (simp add: r1)
      with s1 q have n: "q \<in> nbrOf b (zeroReach b p)" unfolding zr1 nb1 by blast
      show ?thesis
      proof (cases "score (cellAt b q) = 0")
        case True
        from n obtain z where z: "z \<in> zeroReach b p" "adjacent z q" "inGrid b q"
          by (auto simp: nbrOf_def)
        from zeroReach.step[OF z(1) z(3) z(2) True] show ?thesis by (simp add: floodSet_def)
      next
        case False
        with n show ?thesis by (simp add: floodSet_def)
      qed
    qed
  next
    assume "revealedAt b q \<or> q \<in> floodSet b p"
    then consider "revealedAt b q" | "q \<in> zeroReach b p" | "q \<in> nbrOf b (zeroReach b p)"
      by (auto simp: floodSet_def)
    then show "revealedAt b' q"
    proof cases
      case 1
      then show ?thesis by (rule up)
    next
      case 2
      then show ?thesis using reach by blast
    next
      case 3
      then obtain z where z: "z \<in> zeroReach b p" "adjacent z q" "inGrid b q"
        by (auto simp: nbrOf_def)
      from reach[OF z(1)] have zz: "revealedAt b' z" "inGrid b z" "score (cellAt b z) = 0"
        "\<not> hasMine (cellAt b z)" by simp_all
      have z': "score (cellAt b' z) = 0" "\<not> hasMine (cellAt b' z)"
        using zz floods_facts(2)[OF f zz(2)] floods_hasMine[OF f zz(2)] by simp_all
      from cz' zz(1) z' z(2,3) show ?thesis
        unfolding closedZeros_def in' by blast
    qed
  qed
  with click f cz' show ?thesis by blast
qed

lemma sameGrid_inGrid: "sameGrid b b' \<Longrightarrow> inGrid b' q = inGrid b q"
  unfolding sameGrid_def inGrid_def by metis

lemma sameGrid_cell:
  assumes "sameGrid b b'" "inGrid b q"
  shows "location (cellAt b' q) = location (cellAt b q)"
    "hasMine (cellAt b' q) = hasMine (cellAt b q)"
    "score (cellAt b' q) = score (cellAt b q)"
  using assms unfolding sameGrid_def by blast+

lemma sameGrid_gridOK:
  assumes "sameGrid b b'" "gridOK b"
  shows "gridOK b'"
  unfolding gridOK_def
proof (intro conjI allI impI)
  from assms(1) have f: "rows b' = rows b" "cols b' = cols b" "length (cells b') = length (cells b)"
    and l: "\<And>r. r < length (cells b) \<Longrightarrow> length (cells b' ! r) = length (cells b ! r)"
    unfolding sameGrid_def by blast+
  from assms(2) have g: "0 \<le> rows b" "0 \<le> cols b" "length (cells b) = nat (rows b)"
    and gl: "\<And>r. r < nat (rows b) \<Longrightarrow> length (cells b ! r) = nat (cols b)"
    unfolding gridOK_def by blast+
  show "0 \<le> rows b'" "0 \<le> cols b'" "length (cells b') = nat (rows b')"
    using f g by simp_all
  show "length (cells b' ! r) = nat (cols b')" if "r < nat (rows b')" for r
    using that l[of r] gl[of r] f g by simp
  show "location (cellAt b' p) = locOf p" if "inGrid b' p" for p
    using that sameGrid_inGrid[OF assms(1), of p] sameGrid_cell(1)[OF assms(1), of p]
      gridOK_location[OF assms(2), of p] by simp
qed

lemma sameGrid_mineNbrs: "sameGrid b b' \<Longrightarrow> mineNbrs b' p = mineNbrs b p"
  using sameGrid_inGrid[of b b'] sameGrid_cell(2)[of b b']
  unfolding mineNbrs_def by blast

lemma sameGrid_scoresOK:
  assumes "sameGrid b b'" "scoresOK b"
  shows "scoresOK b'"
  using assms(2) sameGrid_inGrid[OF assms(1)] sameGrid_cell(3)[OF assms(1)]
    sameGrid_mineNbrs[OF assms(1)]
  unfolding scoresOK_def by metis

lemma sameGrid_closedZeros:
  assumes f: "sameGrid b b'" and c: "closedZeros b"
    and up: "\<And>q. revealedAt b q \<Longrightarrow> revealedAt b' q"
    and new: "\<forall>z. revealedAt b' z \<and> \<not> revealedAt b z \<longrightarrow>
                 score (cellAt b z) \<noteq> 0 \<or> hasMine (cellAt b z)
                 \<or> (\<forall>q. inGrid b q \<and> adjacent z q \<longrightarrow> revealedAt b' q)"
  shows "closedZeros b'"
  unfolding closedZeros_def
proof (intro allI impI, elim conjE)
  fix z q assume z: "revealedAt b' z" "score (cellAt b' z) = 0" "\<not> hasMine (cellAt b' z)"
    and q: "inGrid b' q" "adjacent z q"
  have in': "\<And>q. inGrid b' q = inGrid b q" by (rule sameGrid_inGrid[OF f])
  from z(1) have zin: "inGrid b z" by (simp add: revealedAt_def in')
  have z0: "score (cellAt b z) = 0" using z(2) sameGrid_cell(3)[OF f zin] by simp
  have zm: "\<not> hasMine (cellAt b z)" using z(3) sameGrid_cell(2)[OF f zin] by simp
  from q have qin: "inGrid b q" by (simp add: in')
  show "revealedAt b' q"
  proof (cases "revealedAt b z")
    case True
    with c z0 zm qin q(2) have "revealedAt b q" unfolding closedZeros_def by blast
    then show ?thesis by (rule up)
  next
    case False
    with new z(1) z0 zm qin q(2) show ?thesis by blast
  qed
qed

lemma floods_sameGrid:
  assumes "floods b b'"
  shows "sameGrid b b'"
proof -
  from assms have e: "eraseRevealed b' = eraseRevealed b" by (simp add: floods_def)
  show ?thesis
    unfolding sameGrid_def
    using erase_fields(1,2)[OF e] erase_cells(1,2)[OF e] erase_cell(1,2,4)[OF e]
    by blast
qed

lemma sameGrid_explosion: "sameGrid b (b\<lparr>explosionOccured := x\<rparr>)"
  by (simp add: sameGrid_def cellAt_def)

lemma revealedAt_explosion [simp]: "revealedAt (b\<lparr>explosionOccured := x\<rparr>) q = revealedAt b q"
  by (simp add: revealedAt_def inGrid_def cellAt_def)

lemma sameGrid_trans: "sameGrid a b \<Longrightarrow> sameGrid b c \<Longrightarrow> sameGrid a c"
  unfolding sameGrid_def
  using sameGrid_inGrid[of a b] unfolding sameGrid_def by (smt (verit, best))

lemma length_store [simp]: "length (cells (store b n c)) = length (cells b)"
  by (simp add: store_def)

lemma length_row_store [simp]: "length (cells (store b n c) ! r) = length (cells b ! r)"
proof (cases "fst n < length (cells b)")
  case True
  then show ?thesis by (cases "r = fst n") (simp_all add: store_def)
next
  case False
  have "(cells b)[fst n := X] = cells b" for X
    using False by (intro list_update_beyond) simp
  then show ?thesis unfolding store_def by simp
qed

lemma fields_store [simp]:
  "rows (store b n c) = rows b" "cols (store b n c) = cols b"
  "initialized (store b n c) = initialized b" "safeRemaining (store b n c) = safeRemaining b"
  "mineCount (store b n c) = mineCount b" "explosionOccured (store b n c) = explosionOccured b"
  "mines (store b n c) = mines b" "difficulty (store b n c) = difficulty b"
  by (simp_all add: store_def)

lemma sameGrid_store:
  assumes "inGrid b n" "location c = location (cellAt b n)" "hasMine c = hasMine (cellAt b n)"
    "score c = score (cellAt b n)"
  shows "sameGrid b (store b n c)"
  unfolding sameGrid_def using assms by (simp add: cellAt_store)

text \<open>The effect of a click, case by case, on a board with a well-formed grid.\<close>

lemma Click_preserves:
  assumes inv: "boardInv b"
  shows "\<exists>b'. Click b l = Inr b' \<and> boardInv b' \<and> sameGrid b b'
           \<and> safeRemaining b' = safeRemaining b \<and> mineCount b' = mineCount b
           \<and> (\<forall>q. revealedAt b q \<longrightarrow> revealedAt b' q)
           \<and> (\<forall>q. inGrid b q \<longrightarrow> flagged (cellAt b' q) = flagged (cellAt b q))"
proof -
  from inv have i: "initialized b" and co: "countsOK b" and g: "gridOK b" and s: "scoresOK b"
    and cz: "closedZeros b"
    by (simp_all add: boardInv_def)
  have same: "sameGrid b b" by (simp add: sameGrid_def)
  show ?thesis
  proof (cases "ValidLocation b l")
    case False
    then have "Click b l = Inr b" by (rule Click_outside[OF g])
    with inv same show ?thesis by simp
  next
    case True
    define p where "p = ptrOf l"
    from ValidLocation_ptrOf[OF g True] have p: "inGrid b p" and l: "l = locOf p"
      by (simp_all add: p_def)
    define b1 where "b1 = store b p ((cellAt b p)\<lparr>revealed := True\<rparr>)"
    have f01: "floods b b1" unfolding b1_def by (rule floods_store[OF p])
    have r1: "\<And>q. revealedAt b1 q = (q = p \<or> revealedAt b q)"
      unfolding b1_def by (rule revealedAt_store[OF p])
    have sg1: "sameGrid b b1" by (rule floods_sameGrid[OF f01])
    have fl1: "\<And>q. inGrid b q \<Longrightarrow> flagged (cellAt b1 q) = flagged (cellAt b q)"
      by (rule floods_flagged[OF f01])
    have other: "boardInv b1" if "score (cellAt b p) \<noteq> 0 \<or> hasMine (cellAt b p)"
    proof -
      have "closedZeros b1"
      proof (rule sameGrid_closedZeros[OF sg1 cz])
        show "\<And>q. revealedAt b q \<Longrightarrow> revealedAt b1 q" by (simp add: r1)
        show "\<forall>z. revealedAt b1 z \<and> \<not> revealedAt b z \<longrightarrow>
                 score (cellAt b z) \<noteq> 0 \<or> hasMine (cellAt b z)
                 \<or> (\<forall>q. inGrid b q \<and> adjacent z q \<longrightarrow> revealedAt b1 q)"
          using that unfolding r1 by blast
      qed
      with i co sameGrid_gridOK[OF sg1 g] sameGrid_scoresOK[OF sg1 s] show ?thesis
        by (simp add: boardInv_def countsOK_def b1_def)
    qed
    consider (skip) "flagged (cellAt b p) \<or> revealed (cellAt b p)"
      | (mine) "\<not> flagged (cellAt b p)" "\<not> revealed (cellAt b p)" "hasMine (cellAt b p)"
      | (nonzero) "\<not> flagged (cellAt b p)" "\<not> revealed (cellAt b p)" "\<not> hasMine (cellAt b p)"
          "score (cellAt b p) \<noteq> 0"
      | (zero) "\<not> flagged (cellAt b p)" "\<not> revealed (cellAt b p)" "\<not> hasMine (cellAt b p)"
          "score (cellAt b p) = 0"
      by blast
    then show ?thesis
    proof cases
      case skip
      then have "Click b l = Inr b" unfolding l by (auto simp: Click_unfold[OF g p])
      with inv same show ?thesis by simp
    next
      case mine
      define b' where "b' = b1\<lparr>explosionOccured := True\<rparr>"
      have c: "Click b l = Inr b'"
        unfolding l using mine by (simp add: Click_unfold[OF g p] b1_def b'_def)
      have sg: "sameGrid b b'"
        unfolding b'_def by (rule sameGrid_trans[OF sg1 sameGrid_explosion])
      have inv1: "boardInv b1" using other mine by blast
      have sg1': "sameGrid b1 b'" unfolding b'_def by (rule sameGrid_explosion)
      have "closedZeros b'"
        by (rule sameGrid_closedZeros[OF sg1']) (use inv1 in \<open>simp_all add: boardInv_def b'_def\<close>)
      with sameGrid_gridOK[OF sg1'] sameGrid_scoresOK[OF sg1'] inv1 have "boardInv b'"
        by (simp add: boardInv_def countsOK_def b'_def)
      moreover have "\<forall>q. revealedAt b q \<longrightarrow> revealedAt b' q" by (simp add: b'_def r1)
      moreover have "\<forall>q. inGrid b q \<longrightarrow> flagged (cellAt b' q) = flagged (cellAt b q)"
        using fl1 by (simp add: b'_def cellAt_def)
      moreover have "safeRemaining b' = safeRemaining b" "mineCount b' = mineCount b"
        by (simp_all add: b'_def b1_def)
      ultimately show ?thesis using c sg by blast
    next
      case nonzero
      have c: "Click b l = Inr b1"
        unfolding l using nonzero by (simp add: Click_unfold[OF g p] b1_def)
      have "boardInv b1" using other nonzero by blast
      moreover have "\<forall>q. revealedAt b q \<longrightarrow> revealedAt b1 q" by (simp add: r1)
      moreover have "safeRemaining b1 = safeRemaining b" "mineCount b1 = mineCount b"
        by (simp_all add: b1_def)
      ultimately show ?thesis using c sg1 fl1 by blast
    next
      case zero
      from Click_zero_spec[OF g s cz p zero(1,2,3,4)] obtain b' where
        b': "Click b l = Inr b'" "floods b b'" "closedZeros b'"
        unfolding l by blast
      have sg: "sameGrid b b'" by (rule floods_sameGrid[OF b'(2)])
      from b'(2) have e: "eraseRevealed b' = eraseRevealed b" by (simp add: floods_def)
      have "boardInv b'"
        using i co sameGrid_gridOK[OF sg g] sameGrid_scoresOK[OF sg s] b'(3) erase_fields(1-5)[OF e]
        by (simp add: boardInv_def countsOK_def)
      moreover have "\<forall>q. revealedAt b q \<longrightarrow> revealedAt b' q"
        using floods_facts(5)[OF b'(2)] by blast
      moreover have "\<forall>q. inGrid b q \<longrightarrow> flagged (cellAt b' q) = flagged (cellAt b q)"
        using floods_flagged[OF b'(2)] by blast
      moreover have "safeRemaining b' = safeRemaining b" "mineCount b' = mineCount b"
        using erase_fields(3,4)[OF e] by simp_all
      ultimately show ?thesis using b'(1) sg by blast
    qed
  qed
qed

lemma ToggleFlag_preserves:
  assumes inv: "boardInv b"
  shows "\<exists>b'. ToggleFlag b l = Inr b' \<and> boardInv b'"
proof -
  from inv have i: "initialized b" and co: "countsOK b" and g: "gridOK b" and s: "scoresOK b"
    and cz: "closedZeros b"
    by (simp_all add: boardInv_def)
  show ?thesis
  proof (cases "ValidLocation b l")
    case False
    then have "ToggleFlag b l = Inr b" by (simp add: ToggleFlag_def getCell_gridOK[OF g])
    with inv show ?thesis by simp
  next
    case True
    define p where "p = ptrOf l"
    from ValidLocation_ptrOf[OF g True] have p: "inGrid b p"
      by (simp_all add: p_def)
    define b' where "b' = store b p ((cellAt b p)\<lparr>flagged := \<not> flagged (cellAt b p)\<rparr>)"
    have t: "ToggleFlag b l = (if revealed (cellAt b p) = False then Inr b' else Inr b)"
      using True p by (simp add: ToggleFlag_def getCell_gridOK[OF g] load_eq p_def b'_def)
    have sg: "sameGrid b b'" unfolding b'_def by (rule sameGrid_store[OF p]) simp_all
    have r: "\<And>q. revealedAt b' q = revealedAt b q"
      using p by (auto simp: revealedAt_def b'_def cellAt_store)
    have "closedZeros b'"
      by (rule sameGrid_closedZeros[OF sg cz]) (simp_all add: r)
    with i co sameGrid_gridOK[OF sg g] sameGrid_scoresOK[OF sg s] have "boardInv b'"
      by (simp add: boardInv_def countsOK_def b'_def)
    with t inv show ?thesis by auto
  qed
qed

lemma RevealAll_preserves:
  assumes inv: "boardInv b"
  shows "\<exists>b'. RevealAll (Some b) = Inr b' \<and> boardInv b'"
proof -
  from inv have i: "initialized b" and co: "countsOK b" and g: "gridOK b" and s: "scoresOK b"
    and cz: "closedZeros b"
    by (simp_all add: boardInv_def)
  define b' where "b' = b\<lparr>cells := map (map (\<lambda>c. c\<lparr>revealed := True\<rparr>)) (cells b)\<rparr>"
  have r: "RevealAll (Some b) = Inr b'" using i by (simp add: RevealAll_def b'_def)
  have c: "\<And>q. inGrid b q \<Longrightarrow> cellAt b' q = (cellAt b q)\<lparr>revealed := True\<rparr>"
    by (simp add: inGrid_def cellAt_def b'_def)
  have sg: "sameGrid b b'"
    unfolding sameGrid_def using c by (simp add: b'_def)
  have ra: "\<And>q. revealedAt b' q = inGrid b q"
    using c sameGrid_inGrid[OF sg] by (auto simp: revealedAt_def)
  have "closedZeros b'"
    unfolding closedZeros_def ra sameGrid_inGrid[OF sg] by blast
  with i co sameGrid_gridOK[OF sg g] sameGrid_scoresOK[OF sg s] have "boardInv b'"
    by (simp add: boardInv_def countsOK_def b'_def)
  with r show ?thesis by blast
qed

lemma length_filter_concat:
  "length (filter P (concat xss)) = sum_list (map (\<lambda>xs. length (filter P xs)) xss)"
  by (induction xss) simp_all

lemma filter_update_gain:
  assumes "j < length xs" "\<not> P (xs ! j)" "P y"
  shows "length (filter P (xs[j := y])) = Suc (length (filter P xs))"
  using assms
proof (induction xs arbitrary: j)
  case Nil
  then show ?case by simp
next
  case (Cons x xs)
  then show ?case by (cases j) auto
qed

lemma sum_list_map_update_gain:
  fixes f :: "'a \<Rightarrow> nat"
  assumes "i < length xs" "f y = Suc (f (xs ! i))"
  shows "sum_list (map f (xs[i := y])) = Suc (sum_list (map f xs))"
  using assms
proof (induction xs arbitrary: i)
  case Nil
  then show ?case by simp
next
  case (Cons x xs)
  then show ?case by (cases i) auto
qed

lemma mineCells_store:
  assumes "inGrid b n" "\<not> hasMine (cellAt b n)" "hasMine c"
  shows "mineCells (store b n c) = Suc (mineCells b)"
proof -
  have "length (filter hasMine ((cells b ! fst n)[snd n := c]))
        = Suc (length (filter hasMine (cells b ! fst n)))"
    using assms by (intro filter_update_gain) (simp_all add: inGrid_def cellAt_def)
  then show ?thesis
    unfolding mineCells_def length_filter_concat store_def using assms(1)
    by (simp add: sum_list_map_update_gain inGrid_def)
qed

lemma mineCells_mapCells_eq:
  assumes "mapCells f b' = mapCells f b" "\<And>c. hasMine (f c) = hasMine c"
  shows "mineCells b' = mineCells b"
proof -
  from assms(1) have m: "map (map f) (cells b') = map (map f) (cells b)"
    by (auto simp: mapCells_def dest: arg_cong[where f = cells])
  have "map (map hasMine) (map (map f) cs) = map (map hasMine) cs" for cs
    by (simp add: assms(2) comp_def)
  with m have "map (map hasMine) (cells b') = map (map hasMine) (cells b)" by metis
  then have "concat (map (map hasMine) (cells b')) = concat (map (map hasMine) (cells b))" by simp
  then have "map hasMine (concat (cells b')) = map hasMine (concat (cells b))"
    by (simp add: map_concat)
  then have "length (filter (\<lambda>x. x) (map hasMine (concat (cells b'))))
           = length (filter (\<lambda>x. x) (map hasMine (concat (cells b))))" by simp
  then show ?thesis by (simp add: mineCells_def filter_map comp_def)
qed

text \<open>A loop keeps what each of its iterations keeps, and panics in none if none panics.\<close>

lemma forEach_inv:
  assumes "I s" "\<And>i s. i \<in> set is \<Longrightarrow> I s \<Longrightarrow> \<exists>s'. body i s = Inr s' \<and> I s'"
  shows "\<exists>s'. forEach is body s = Inr s' \<and> I s'"
  using assms
proof (induction "is" arbitrary: s)
  case Nil
  then show ?case by simp
next
  case (Cons i "is")
  from Cons.prems(2)[of i s] Cons.prems(1) obtain s1 where s1: "body i s = Inr s1" "I s1"
    by auto
  from Cons.IH[OF s1(2)] Cons.prems(2) obtain s' where "forEach is body s1 = Inr s'" "I s'"
    by auto
  with s1(1) show ?case by simp
qed

lemma forEach_set_inv:
  assumes "I D s"
    and "\<And>i D s. i \<in> set is \<Longrightarrow> I D s \<Longrightarrow> \<exists>s'. body i s = Inr s' \<and> I (insert i D) s'"
  shows "\<exists>s'. forEach is body s = Inr s' \<and> I (D \<union> set is) s'"
  using assms
proof (induction "is" arbitrary: s D)
  case Nil
  then show ?case by simp
next
  case (Cons i "is")
  from Cons.prems(2)[of i D s] Cons.prems(1) obtain s1 where
    s1: "body i s = Inr s1" "I (insert i D) s1"
    by auto
  from Cons.IH[OF s1(2)] Cons.prems(2) obtain s' where
    "forEach is body s1 = Inr s'" "I (insert i D \<union> set is) s'"
    by auto
  with s1(1) show ?case by simp
qed

lemma gridOK_store:
  assumes "gridOK b" "inGrid b n" "location c = location (cellAt b n)"
  shows "gridOK (store b n c)"
  unfolding gridOK_def
proof (intro conjI allI impI)
  from assms(1) have g: "0 \<le> rows b" "0 \<le> cols b" "length (cells b) = nat (rows b)"
    and gl: "\<And>r. r < nat (rows b) \<Longrightarrow> length (cells b ! r) = nat (cols b)"
    unfolding gridOK_def by blast+
  show "0 \<le> rows (store b n c)" "0 \<le> cols (store b n c)"
    "length (cells (store b n c)) = nat (rows (store b n c))"
    using g by simp_all
  show "length (cells (store b n c) ! r) = nat (cols (store b n c))"
    if "r < nat (rows (store b n c))" for r
    using that gl[of r] by simp
  show "location (cellAt (store b n c) p) = locOf p" if "inGrid (store b n c) p" for p
    using that assms gridOK_location[OF assms(1), of p] gridOK_location[OF assms(1,2)]
    by (simp add: cellAt_store)
qed

lemma cells_cong:
  assumes "cells b' = cells b" "rows b' = rows b" "cols b' = cols b"
  shows "inGrid b' p = inGrid b p" "cellAt b' p = cellAt b p" "mineCells b' = mineCells b"
    "gridOK b' = gridOK b"
  using assms by (simp_all add: inGrid_def cellAt_def mineCells_def gridOK_def)

lemma placeCell_inv:
  assumes inv: "placeInv b0 safespot st" and r: "r < nat (rows b0)" and c: "c < nat (cols b0)"
  shows "\<exists>st'. placeCell rnd safespot r c st = Inr st' \<and> placeInv b0 safespot st'"
proof -
  obtain b m k where st: "st = (b, m, k)" by (cases st) auto
  from inv have g: "gridOK b" and f: "rows b = rows b0" "cols b = cols b0" "mineCount b = mineCount b0"
    and m: "0 \<le> m" "int (mineCells b) + m = mineCount b0"
    and sr: "safeRemaining b = rows b0 * cols b0 - int (mineCells b)"
    and cl: "\<And>p. inGrid b p \<Longrightarrow> \<not> revealed (cellAt b p)"
            "\<And>p. inGrid b p \<Longrightarrow> locOf p = safespot \<Longrightarrow> \<not> hasMine (cellAt b p)"
    unfolding placeInv_def st prod.case by blast+
  define currloc where "currloc = \<lparr>row = int r, col = int c\<rparr>"
  have cur: "currloc = locOf (r, c)" by (simp add: currloc_def locOf_def)
  have p: "inGrid b (r, c)" using r c f by (simp add: inGrid_gridOK[OF g])
  have gc: "getCell b currloc = Inr (Some (r, c))"
    using p by (simp add: getCell_gridOK[OF g] cur ValidLocation_locOf[OF g])
  have ld: "load b (r, c) = Inr (cellAt b (r, c))" using p by (simp add: load_eq)
  have ix: "r < length (cells b) \<and> c < length (cells b ! r)" using p by (simp add: inGrid_def)
  have keep: "placeInv b0 safespot (b, m, k')" for k'
    using inv by (simp add: placeInv_def st)
  show ?thesis
  proof (cases "m = 0 \<or> currloc = safespot \<or> \<not> rnd k < 2 \<or> hasMine (cellAt b (r, c))")
    case True
    then consider "m = 0" | "m \<noteq> 0" "currloc = safespot"
      | "m \<noteq> 0" "currloc \<noteq> safespot" "\<not> rnd k < 2"
      | "m \<noteq> 0" "currloc \<noteq> safespot" "rnd k < 2" "hasMine (cellAt b (r, c))"
      by blast
    then show ?thesis
    proof cases
      case 1
      then have "placeCell rnd safespot r c st = Inr st" by (simp add: placeCell_def st)
      with inv show ?thesis by simp
    next
      case 2
      then have "placeCell rnd safespot r c st = Inr st"
        by (simp add: placeCell_def st currloc_def)
      with inv show ?thesis by simp
    next
      case 3
      then have "placeCell rnd safespot r c st = Inr (b, m, Suc k)"
        by (simp add: placeCell_def st currloc_def[symmetric] Let_def)
      with keep show ?thesis by simp
    next
      case 4
      then have "placeCell rnd safespot r c st = Inr (b, m, Suc k)"
        by (simp add: placeCell_def st currloc_def[symmetric] Let_def gc ld)
      with keep show ?thesis by simp
    qed
  next
    case False
    then have h: "m \<noteq> 0" "currloc \<noteq> safespot" "rnd k < 2" "\<not> hasMine (cellAt b (r, c))"
      by simp_all
    define b1 where "b1 = store b (r, c) ((cellAt b (r, c))\<lparr>hasMine := True\<rparr>)"
    define b' where "b' = b1\<lparr>mines := mines b @ [currloc], safeRemaining := safeRemaining b - 1\<rparr>"
    have res: "placeCell rnd safespot r c st = Inr (b', m - 1, Suc k)"
      using h ix
      by (simp add: placeCell_def st currloc_def[symmetric] Let_def gc ld b'_def b1_def cellAt_def)
    have g1: "gridOK b1" unfolding b1_def by (rule gridOK_store[OF g p]) simp
    have mc1: "mineCells b1 = Suc (mineCells b)"
      unfolding b1_def by (rule mineCells_store[OF p h(4)]) simp
    have cc: "cells b' = cells b1" "rows b' = rows b1" "cols b' = cols b1"
      by (simp_all add: b'_def)
    note cg = cells_cong[OF cc]
    have c1: "\<And>q. cellAt b1 q = (if q = (r, c) then (cellAt b (r, c))\<lparr>hasMine := True\<rparr> else cellAt b q)"
      unfolding b1_def by (rule cellAt_store[OF p])
    have in1: "\<And>q. inGrid b1 q = inGrid b q" by (simp add: b1_def)
    have "placeInv b0 safespot (b', m - 1, Suc k)"
      unfolding placeInv_def prod.case
    proof (intro conjI allI impI)
      show "gridOK b'" using g1 by (simp add: cg)
      show "rows b' = rows b0" "cols b' = cols b0" "mineCount b' = mineCount b0"
        using f by (simp_all add: b'_def b1_def)
      show "0 \<le> m - 1" using m(1) h(1) by simp
      show "int (mineCells b') + (m - 1) = mineCount b0"
        using m(2) by (simp add: cg mc1)
      show "safeRemaining b' = rows b0 * cols b0 - int (mineCells b')"
        using sr by (simp add: cg mc1) (simp add: b'_def)
      show "\<not> revealed (cellAt b' q)" if "inGrid b' q" for q
        using that cl(1)[of q] cl(1)[OF p] by (simp add: cg c1 in1)
      show "\<not> hasMine (cellAt b' q)" if "inGrid b' q" "locOf q = safespot" for q
        using that cl(2)[of q] h(2) by (auto simp: cg c1 in1 cur)
    qed
    with res show ?thesis by simp
  qed
qed

lemma scanGrid_inv:
  assumes inv: "placeInv b0 safespot st"
  shows "\<exists>st'. scanGrid rnd safespot st = Inr st' \<and> placeInv b0 safespot st'"
  unfolding scanGrid_def
proof (rule forEach_inv[where I = "placeInv b0 safespot", OF inv])
  fix r s assume r: "r \<in> set [0 ..< length (cells (fst st))]" and s: "placeInv b0 safespot s"
  from inv have "length (cells (fst st)) = nat (rows b0)"
    by (auto simp: placeInv_def gridOK_def split: prod.splits)
  with r have r': "r < nat (rows b0)" by simp
  from s r' have len: "length (cells (fst s) ! r) = nat (cols b0)"
    by (auto simp: placeInv_def gridOK_def split: prod.splits)
  show "\<exists>s'. forEach [0 ..< length (cells (fst s) ! r)] (placeCell rnd safespot r) s = Inr s'
            \<and> placeInv b0 safespot s'"
  proof (rule forEach_inv[where I = "placeInv b0 safespot", OF s])
    fix c s2 assume "c \<in> set [0 ..< length (cells (fst s) ! r)]" and s2: "placeInv b0 safespot s2"
    then have "c < nat (cols b0)" using len by simp
    from placeCell_inv[OF s2 r' this]
    show "\<exists>s'. placeCell rnd safespot r c s2 = Inr s' \<and> placeInv b0 safespot s'" .
  qed
qed

lemma placeMines_inv:
  assumes ret: "placeMines rnd safespot st = Some res" and inv: "placeInv b0 safespot st"
  shows "\<exists>b k. res = Inr (b, 0, k) \<and> placeInv b0 safespot (b, 0, k)"
proof -
  have "placeInv b0 safespot st \<longrightarrow> (\<exists>b k. res = Inr (b, 0, k) \<and> placeInv b0 safespot (b, 0, k))"
  proof (rule placeMines.raw_induct[where P = "\<lambda>rnd safespot st res.
      placeInv b0 safespot st \<longrightarrow> (\<exists>b k. res = Inr (b, 0, k) \<and> placeInv b0 safespot (b, 0, k))",
      OF _ ret], goal_cases)
    case (1 f rnd' safe' st' y)
    show ?case
    proof
      assume i: "placeInv b0 safe' st'"
      show "\<exists>b k. y = Inr (b, 0, k) \<and> placeInv b0 safe' (b, 0, k)"
      proof (cases "fst (snd st') > 0")
        case True
        from scanGrid_inv[OF i] obtain st2 where
          st2: "scanGrid rnd' safe' st' = Inr st2" "placeInv b0 safe' st2" by blast
        with 1(2) True have "f rnd' safe' st2 = Some y" by simp
        from 1(1)[OF this] st2(2) show ?thesis by blast
      next
        case False
        with 1(2) have y: "y = Inr st'" by simp
        obtain b m k where st: "st' = (b, m, k)" by (cases st') auto
        from i False have "m = 0" by (simp add: placeInv_def st)
        with y st i show ?thesis by simp
      qed
    qed
  qed
  with inv show ?thesis by blast
qed

lemma mapCells_store:
  assumes "inGrid b n" "f c = f (cellAt b n)"
  shows "mapCells f (store b n c) = mapCells f b"
proof -
  have 1: "map f ((cells b ! fst n)[snd n := c]) = map f (cells b ! fst n)"
    using assms by (intro update_same_map[where f = f]) (simp_all add: inGrid_def cellAt_def)
  have "map (map f) ((cells b)[fst n := (cells b ! fst n)[snd n := c]]) = map (map f) (cells b)"
    using assms 1 by (intro update_same_map[where f = "map f"]) (simp_all add: inGrid_def)
  then show ?thesis by (simp add: mapCells_def store_def)
qed

lemma mapCells_eq_gridOK:
  assumes e: "mapCells f b' = mapCells f b" and loc: "\<And>c. location (f c) = location c"
    and g: "gridOK b"
  shows "gridOK b'"
  unfolding gridOK_def
proof (intro conjI allI impI)
  note f = mapCells_eq_fields(1,2)[OF e]
  from g have g': "0 \<le> rows b" "0 \<le> cols b" "length (cells b) = nat (rows b)"
    and gl: "\<And>r. r < nat (rows b) \<Longrightarrow> length (cells b ! r) = nat (cols b)"
    unfolding gridOK_def by blast+
  show "0 \<le> rows b'" "0 \<le> cols b'" "length (cells b') = nat (rows b')"
    using g' mapCells_eq_cells(1)[OF e] by (simp_all add: f)
  show "length (cells b' ! r) = nat (cols b')" if "r < nat (rows b')" for r
    using that g' gl[of r] mapCells_eq_cells(2)[OF e, of r] by (simp add: f)
  show "location (cellAt b' p) = locOf p" if "inGrid b' p" for p
  proof -
    from that have p: "inGrid b p" by (simp add: mapCells_eq_inGrid[OF e])
    have "location (f (cellAt b' p)) = location (f (cellAt b p))"
      using mapCells_eq_cell[OF e p] by simp
    then show ?thesis using gridOK_location[OF g p] by (simp add: loc)
  qed
qed

lemma countMines_spec:
  "\<forall>q\<in>set ns. inGrid b q \<Longrightarrow>
   countMines b ns acc = Inr (acc + int (length (filter (\<lambda>q. hasMine (cellAt b q)) ns)))"
  by (induction ns arbitrary: acc) (simp_all add: load_eq)

lemma scoreCell_spec:
  assumes g: "gridOK b" and p: "inGrid b (r, c)"
  shows "scoreCell r c b =
    Inr (store b (r, c) ((cellAt b (r, c))\<lparr>score := int (card (mineNbrs b (r, c)))\<rparr>))"
proof -
  have cur: "\<lparr>row = int r, col = int c\<rparr> = locOf (r, c)" by (simp add: locOf_def)
  have gc: "getCell b (locOf (r, c)) = Inr (Some (r, c))"
    using p by (simp add: getCell_gridOK[OF g] ValidLocation_locOf[OF g])
  from getNeighborCells_spec[OF g p] obtain ns where
    ns: "getNeighborCells b (locOf (r, c)) = Inr ns" "distinct ns"
        "set ns = {q. inGrid b q \<and> adjacent (r, c) q}"
    by blast
  have "\<forall>q\<in>set ns. inGrid b q" using ns(3) by simp
  from countMines_spec[OF this, of 0]
  have cm: "countMines b ns 0 = Inr (int (length (filter (\<lambda>q. hasMine (cellAt b q)) ns)))"
    by simp
  have "set (filter (\<lambda>q. hasMine (cellAt b q)) ns) = mineNbrs b (r, c)"
    using ns(3) by (auto simp: mineNbrs_def)
  moreover have "distinct (filter (\<lambda>q. hasMine (cellAt b q)) ns)" using ns(2) by simp
  ultimately have "length (filter (\<lambda>q. hasMine (cellAt b q)) ns) = card (mineNbrs b (r, c))"
    using distinct_card by metis
  with cm have cm': "countMines b ns 0 = Inr (int (card (mineNbrs b (r, c))))" by simp
  show ?thesis
    using p by (simp add: scoreCell_def cur gc ns(1) cm' load_eq)
qed

lemma eraseScores_facts:
  assumes "eraseScores b' = eraseScores b"
  shows "inGrid b' p = inGrid b p"
    and "inGrid b p \<Longrightarrow> hasMine (cellAt b' p) = hasMine (cellAt b p)"
    and "inGrid b p \<Longrightarrow> revealed (cellAt b' p) = revealed (cellAt b p)"
    and "mineNbrs b' p = mineNbrs b p"
    and "gridOK b \<Longrightarrow> gridOK b'"
    and "mineCells b' = mineCells b"
proof -
  let ?f = "\<lambda>c::cell. c\<lparr>score := 0\<rparr>"
  from assms have e: "mapCells ?f b' = mapCells ?f b" by (simp add: eraseScores_def)
  show i: "\<And>p. inGrid b' p = inGrid b p" by (rule mapCells_eq_inGrid[OF e])
  have c: "?f (cellAt b' p) = ?f (cellAt b p)" if "inGrid b p" for p
    by (rule mapCells_eq_cell[OF e that])
  show h: "hasMine (cellAt b' p) = hasMine (cellAt b p)" if "inGrid b p" for p
  proof -
    have "hasMine (?f (cellAt b' p)) = hasMine (?f (cellAt b p))" using c[OF that] by simp
    then show ?thesis by simp
  qed
  show "revealed (cellAt b' p) = revealed (cellAt b p)" if "inGrid b p"
  proof -
    have "revealed (?f (cellAt b' p)) = revealed (?f (cellAt b p))" using c[OF that] by simp
    then show ?thesis by simp
  qed
  show "mineNbrs b' p = mineNbrs b p"
    unfolding mineNbrs_def using i h by blast
  show "gridOK b \<Longrightarrow> gridOK b'" by (rule mapCells_eq_gridOK[OF e]) simp
  show "mineCells b' = mineCells b" by (rule mineCells_mapCells_eq[OF e]) simp
qed

lemma scoredInv_weaken:
  assumes "scoredInv b0 D b" "\<And>p. p \<in> D' \<Longrightarrow> inGrid b0 p \<Longrightarrow> p \<in> D"
  shows "scoredInv b0 D' b"
  using assms unfolding scoredInv_def by blast

lemma scoreCell_step:
  assumes g0: "gridOK b0" and inv: "scoredInv b0 D b" and p: "inGrid b0 (r, c)"
  shows "\<exists>b'. scoreCell r c b = Inr b' \<and> scoredInv b0 (insert (r, c) D) b'"
proof -
  from inv have e: "eraseScores b = eraseScores b0"
    and d: "\<And>q. q \<in> D \<Longrightarrow> inGrid b0 q \<Longrightarrow> score (cellAt b q) = int (card (mineNbrs b0 q))"
    unfolding scoredInv_def by blast+
  note ef = eraseScores_facts[OF e]
  have g: "gridOK b" by (rule ef(5)[OF g0])
  have pb: "inGrid b (r, c)" using p by (simp add: ef(1))
  define b' where "b' = store b (r, c) ((cellAt b (r, c))\<lparr>score := int (card (mineNbrs b (r, c)))\<rparr>)"
  have res: "scoreCell r c b = Inr b'" unfolding b'_def by (rule scoreCell_spec[OF g pb])
  have "mapCells (\<lambda>c. c\<lparr>score := 0\<rparr>) b' = mapCells (\<lambda>c. c\<lparr>score := 0\<rparr>) b"
    unfolding b'_def by (rule mapCells_store[OF pb]) simp
  then have e': "eraseScores b' = eraseScores b0" using e by (simp add: eraseScores_def)
  have ca: "\<And>q. cellAt b' q = (if q = (r, c) then (cellAt b (r, c))\<lparr>score := int (card (mineNbrs b (r, c)))\<rparr> else cellAt b q)"
    unfolding b'_def by (rule cellAt_store[OF pb])
  have "score (cellAt b' q) = int (card (mineNbrs b0 q))"
    if "q \<in> insert (r, c) D" "inGrid b0 q" for q
  proof (cases "q = (r, c)")
    case True
    then show ?thesis by (simp add: ca ef(4))
  next
    case False
    with that d[of q] show ?thesis by (simp add: ca)
  qed
  with e' have "scoredInv b0 (insert (r, c) D) b'" unfolding scoredInv_def by blast
  with res show ?thesis by blast
qed

lemma initializeScores_spec:
  assumes g0: "gridOK b0"
  shows "\<exists>b. initializeScores b0 = Inr b \<and> eraseScores b = eraseScores b0 \<and> scoresOK b"
proof -
  define J where "J R s = scoredInv b0 {p. fst p \<in> R} s" for R s
  have start: "J {} b0" by (simp add: J_def scoredInv_def)
  have "\<exists>s'. forEach [0 ..< length (cells b0)]
          (\<lambda>r s. forEach [0 ..< length (cells s ! r)] (scoreCell r) s) b0 = Inr s'
        \<and> J ({} \<union> set [0 ..< length (cells b0)]) s'"
  proof (rule forEach_set_inv[where I = J, OF start])
    fix r R s assume r: "r \<in> set [0 ..< length (cells b0)]" and s: "J R s"
    from s have e: "eraseScores s = eraseScores b0" by (simp add: J_def scoredInv_def)
    note ef = eraseScores_facts[OF e]
    have gs: "gridOK s" by (rule ef(5)[OF g0])
    from r g0 have r0: "r < nat (rows b0)" by (simp add: gridOK_def)
    have rs: "rows s = rows b0" "cols s = cols b0"
      using mapCells_eq_fields(1,2)[OF e[unfolded eraseScores_def]] by simp_all
    have len: "length (cells s ! r) = nat (cols b0)"
      using gs r0 rs by (simp add: gridOK_def)
    define I where "I C t = scoredInv b0 ({p. fst p \<in> R} \<union> {(r, c) | c. c \<in> C}) t" for C t
    have istart: "I {} s" using s by (simp add: I_def J_def)
    have "\<exists>s'. forEach [0 ..< length (cells s ! r)] (scoreCell r) s = Inr s'
            \<and> I ({} \<union> set [0 ..< length (cells s ! r)]) s'"
    proof (rule forEach_set_inv[where I = I, OF istart])
      fix c C t assume c: "c \<in> set [0 ..< length (cells s ! r)]" and t: "I C t"
      from c len r0 have p: "inGrid b0 (r, c)" by (simp add: inGrid_gridOK[OF g0])
      from scoreCell_step[OF g0 t[unfolded I_def] p] obtain t' where
        t': "scoreCell r c t = Inr t'"
            "scoredInv b0 (insert (r, c) ({p. fst p \<in> R} \<union> {(r, c) | c. c \<in> C})) t'"
        by blast
      have "scoredInv b0 ({p. fst p \<in> R} \<union> {(r, c') | c'. c' \<in> insert c C}) t'"
        by (rule scoredInv_weaken[OF t'(2)]) auto
      with t'(1) show "\<exists>s'. scoreCell r c t = Inr s' \<and> I (insert c C) s'"
        by (auto simp: I_def)
    qed
    then obtain s' where s': "forEach [0 ..< length (cells s ! r)] (scoreCell r) s = Inr s'"
      "I (set [0 ..< nat (cols b0)]) s'"
      by (auto simp: len)
    have "J (insert r R) s'"
      unfolding J_def
    proof (rule scoredInv_weaken[OF s'(2)[unfolded I_def]])
      fix p assume "p \<in> {p. fst p \<in> insert r R}" "inGrid b0 p"
      then show "p \<in> {p. fst p \<in> R} \<union> {(r, c) |c. c \<in> set [0 ..< nat (cols b0)]}"
        by (cases p) (auto simp: inGrid_gridOK[OF g0])
    qed
    with s'(1) show "\<exists>s'. forEach [0 ..< length (cells s ! r)] (scoreCell r) s = Inr s' \<and> J (insert r R) s'"
      by blast
  qed
  then obtain b where b: "initializeScores b0 = Inr b" "J (set [0 ..< length (cells b0)]) b"
    by (auto simp: initializeScores_def)
  from b(2) have e: "eraseScores b = eraseScores b0"
    and sc: "\<And>p. fst p < length (cells b0) \<Longrightarrow> inGrid b0 p \<Longrightarrow>
               score (cellAt b p) = int (card (mineNbrs b0 p))"
    unfolding J_def scoredInv_def by auto
  note ef = eraseScores_facts[OF e]
  have "scoresOK b"
    unfolding scoresOK_def
  proof (intro allI impI)
    fix p assume "inGrid b p"
    then have p: "inGrid b0 p" by (simp add: ef(1))
    then have "fst p < length (cells b0)" by (simp add: inGrid_def)
    from sc[OF this p] show "score (cellAt b p) = int (card (mineNbrs b p))"
      by (simp add: ef(4))
  qed
  with b(1) e show ?thesis by blast
qed

lemma cells_cong2:
  assumes "cells b' = cells b" "rows b' = rows b" "cols b' = cols b"
  shows "revealedAt b' p = revealedAt b p" "mineNbrs b' p = mineNbrs b p"
    "scoresOK b' = scoresOK b" "closedZeros b' = closedZeros b"
  using assms
  by (simp_all add: revealedAt_def mineNbrs_def scoresOK_def closedZeros_def inGrid_def cellAt_def)

lemma allocCells_spec:
  assumes "0 \<le> rows b0" "0 \<le> cols b0"
  shows "\<exists>cs. allocCells b0 = Inr cs \<and> length cs = nat (rows b0)
           \<and> (\<forall>r < nat (rows b0). length (cs ! r) = nat (cols b0)
                 \<and> (\<forall>c < nat (cols b0). cs ! r ! c = zeroCell\<lparr>location := locOf (r, c)\<rparr>))"
  using assms by (simp add: allocCells_def NewLocation_def locOf_def)

lemma no_mines_count:
  assumes "\<forall>r < length cs. \<forall>c < length (cs ! r). \<not> hasMine (cs ! r ! c)"
  shows "length (filter hasMine (concat cs)) = 0"
proof -
  have "\<forall>x \<in> set (concat cs). \<not> hasMine x"
    using assms by (auto simp: in_set_conv_nth)
  then show ?thesis by (simp add: filter_empty_conv)
qed

lemma placeInv_start:
  assumes r: "0 \<le> rows b0" "0 \<le> cols b0" and m: "0 \<le> mineCount b0"
    and cs: "length cs = nat (rows b0)"
       "\<forall>r < nat (rows b0). length (cs ! r) = nat (cols b0)
                 \<and> (\<forall>c < nat (cols b0). cs ! r ! c = zeroCell\<lparr>location := locOf (r, c)\<rparr>)"
  shows "placeInv b0 safespot (b0\<lparr>cells := cs, safeRemaining := rows b0 * cols b0\<rparr>, mineCount b0, 0)"
proof -
  define b1 where "b1 = b0\<lparr>cells := cs, safeRemaining := rows b0 * cols b0\<rparr>"
  have in1: "inGrid b1 p \<longleftrightarrow> fst p < nat (rows b0) \<and> snd p < nat (cols b0)" for p
    using cs by (auto simp: inGrid_def b1_def)
  have c1: "cellAt b1 p = zeroCell\<lparr>location := locOf p\<rparr>" if "inGrid b1 p" for p
    using that cs in1[of p] by (simp add: cellAt_def b1_def)
  have g: "gridOK b1"
    unfolding gridOK_def using r cs c1 by (simp add: b1_def)
  have "mineCells b1 = 0"
    unfolding mineCells_def
  proof (rule no_mines_count, intro allI impI)
    fix r c assume "r < length (cells b1)" "c < length (cells b1 ! r)"
    then have "inGrid b1 (r, c)" by (simp add: inGrid_def)
    from c1[OF this] show "\<not> hasMine (cells b1 ! r ! c)" by (simp add: cellAt_def zeroCell_def)
  qed
  with g m c1 show ?thesis
    unfolding b1_def[symmetric] placeInv_def prod.case
    by (simp add: zeroCell_def) (simp add: b1_def)
qed

lemma Initialize_spec:
  assumes r: "0 \<le> rows b0" "0 \<le> cols b0" and m: "0 \<le> mineCount b0"
    and ret: "Initialize rnd b0 safespot = Some res"
  shows "\<exists>b. res = Inr b \<and> boardInv b
           \<and> rows b = rows b0 \<and> cols b = cols b0 \<and> mineCount b = mineCount b0
           \<and> int (mineCells b) = mineCount b0
           \<and> (\<forall>p. inGrid b p \<longrightarrow> \<not> revealed (cellAt b p)
                   \<and> (locOf p = safespot \<longrightarrow> \<not> hasMine (cellAt b p)))"
proof -
  from allocCells_spec[OF r] obtain cs where
    al: "allocCells b0 = Inr cs" and cs: "length cs = nat (rows b0)"
       "\<forall>r < nat (rows b0). length (cs ! r) = nat (cols b0)
                 \<and> (\<forall>c < nat (cols b0). cs ! r ! c = zeroCell\<lparr>location := locOf (r, c)\<rparr>)"
    by blast
  define b1 where "b1 = b0\<lparr>cells := cs, safeRemaining := rows b0 * cols b0\<rparr>"
  have p1: "placeInv b0 safespot (b1, mineCount b0, 0)"
    unfolding b1_def by (rule placeInv_start[OF r m cs])
  have mc1: "mineCount b1 = mineCount b0" by (simp add: b1_def)
  from ret al obtain pres where
    pm: "placeMines rnd safespot (b1, mineCount b0, 0) = Some pres"
    by (auto simp: Initialize_def Let_def b1_def split: option.splits)
  from placeMines_inv[OF pm p1] obtain b2 k where
    pres: "pres = Inr (b2, 0, k)" and p2: "placeInv b0 safespot (b2, 0, k)" by blast
  from p2 have g2: "gridOK b2" and f2: "rows b2 = rows b0" "cols b2 = cols b0" "mineCount b2 = mineCount b0"
    and m2: "int (mineCells b2) = mineCount b0"
    and sr2: "safeRemaining b2 = rows b0 * cols b0 - int (mineCells b2)"
    and cl2: "\<And>p. inGrid b2 p \<Longrightarrow> \<not> revealed (cellAt b2 p)"
             "\<And>p. inGrid b2 p \<Longrightarrow> locOf p = safespot \<Longrightarrow> \<not> hasMine (cellAt b2 p)"
    unfolding placeInv_def prod.case by (simp_all, blast+)
  from initializeScores_spec[OF g2] obtain b3 where
    b3: "initializeScores b2 = Inr b3" "eraseScores b3 = eraseScores b2" "scoresOK b3" by blast
  note ef = eraseScores_facts[OF b3(2)]
  note ff = mapCells_eq_fields[OF b3(2)[unfolded eraseScores_def]]
  define b where "b = b3\<lparr>initialized := True\<rparr>"
  have res: "res = Inr b"
    using ret al pm pres b3(1) by (simp add: Initialize_def Let_def b1_def[symmetric] mc1 b_def)
  have cc: "cells b = cells b3" "rows b = rows b3" "cols b = cols b3" by (simp_all add: b_def)
  note cg = cells_cong[OF cc] cells_cong2[OF cc]
  have nr: "\<not> revealed (cellAt b p)" if "inGrid b p" for p
    using that cl2(1)[of p] by (simp add: cg ef)
  have "closedZeros b" unfolding closedZeros_def revealedAt_def using nr by blast
  moreover have "countsOK b"
    using m m2 sr2 by (simp add: countsOK_def b_def ff f2)
  moreover have "gridOK b" using ef(5)[OF g2] by (simp add: cg)
  moreover have "scoresOK b" using b3(3) by (simp add: cg)
  ultimately have "boardInv b" by (simp add: boardInv_def) (simp add: b_def)
  moreover have "rows b = rows b0" "cols b = cols b0" "mineCount b = mineCount b0"
    by (simp_all add: b_def ff f2)
  moreover have "int (mineCells b) = mineCount b0" using m2 by (simp add: cg ef)
  moreover have "locOf p = safespot \<longrightarrow> \<not> hasMine (cellAt b p)" if "inGrid b p" for p
    using that cl2(2)[of p] by (simp add: cg ef)
  ultimately show ?thesis using res nr by blast
qed

lemma NewBoard_dims:
  assumes "NewBoard name = Some b0"
  shows "0 \<le> rows b0" "0 \<le> cols b0" "0 \<le> mineCount b0" "mineCount b0 < rows b0 * cols b0"
  using assms
  by (auto simp: NewBoard_def boardDefinitionsDict_def zeroBoard_def split: if_splits)

lemma reachable_inv: "reachable b \<Longrightarrow> boardInv b"
proof (induction rule: reachable.induct)
  case (init name b0 rnd safespot b)
  from Initialize_spec[OF NewBoard_dims(1,2,3)[OF init(1)] init(2)] show ?case by simp
next
  case (reinit b rnd safespot b')
  then have "0 \<le> rows b" "0 \<le> cols b" "0 \<le> mineCount b"
    by (simp_all add: boardInv_def gridOK_def countsOK_def)
  from Initialize_spec[OF this reinit(2)] show ?case by simp
next
  case (click b l b')
  with Click_preserves[OF click.IH, of l] show ?case by simp
next
  case (flag b l b')
  with ToggleFlag_preserves[OF flag.IH, of l] show ?case by simp
next
  case (revealAll b b')
  with RevealAll_preserves[OF revealAll.IH] show ?case by simp
qed

section \<open>Construction by difficulty name\<close>

text \<open>
  Claim C8, as the specification states it, is about every \<^verbatim>\<open>NewBoard\<close> of the
  repository, and the one of the root package gives the easy board 6 mines, not 10.
\<close>

theorem NewBoard_gomines_counterexample:
  "map_option (\<lambda>b. (g_rows b, g_cols b, g_mineCount b)) (NewBoard_gomines ''easy'') = Some (9, 9, 6)
   \<and> map_option g_mineCount (NewBoard_gomines ''easy'') \<noteq> Some 10"
  by (simp add: NewBoard_gomines_def boardDefinitionsDict_gomines_def gomines_zeroBoard_def)

text \<open>
  Claim C8, amended.  \<^verbatim>\<open>NewBoard(name)\<close> of package msboard returns a board exactly when
  the name is "easy", "medium" or "hard": the zero board with the name recorded and the
  dimensions and mine count of the preset table, 9 x 9 with 10 mines, 16 x 16 with
  30 mines, 30 x 16 with 72 mines; for every other string it returns no board.
  \<^verbatim>\<open>NewBoard\<close> of the root package returns a board for the same names, with the same
  dimensions and with 6, 18 and 36 mines, and no board for every other string.
\<close>

theorem NewBoard_presets:
  "NewBoard name =
    (if name = ''easy'' then
       Some (zeroBoard\<lparr>difficulty := ''easy'', rows := 9, cols := 9, mineCount := 10\<rparr>)
     else if name = ''medium'' then
       Some (zeroBoard\<lparr>difficulty := ''medium'', rows := 16, cols := 16, mineCount := 30\<rparr>)
     else if name = ''hard'' then
       Some (zeroBoard\<lparr>difficulty := ''hard'', rows := 30, cols := 16, mineCount := 72\<rparr>)
     else None)
   \<and> NewBoard_gomines name =
    (if name = ''easy'' then
       Some (gomines_zeroBoard\<lparr>g_rows := 9, g_cols := 9, g_mineCount := 6\<rparr>)
     else if name = ''medium'' then
       Some (gomines_zeroBoard\<lparr>g_rows := 16, g_cols := 16, g_mineCount := 18\<rparr>)
     else if name = ''hard'' then
       Some (gomines_zeroBoard\<lparr>g_rows := 30, g_cols := 16, g_mineCount := 36\<rparr>)
     else None)"
  by (simp add: NewBoard_def boardDefinitionsDict_def NewBoard_gomines_def
      boardDefinitionsDict_gomines_def)

section \<open>A sample game\<close>

lemma NewBoard_easy: "NewBoard ''easy'' = Some easyBoard"
  by (simp add: NewBoard_def boardDefinitionsDict_def easyBoard_def)

lemma sample_Initialize: "Initialize sampleDraws easyBoard sampleSafe = Some (Inr sampleBoard)"
  by code_simp

lemma sample_reachable: "reachable sampleBoard"
  by (rule reachable.init[OF NewBoard_easy sample_Initialize])

lemma sample_cell:
  "r < 9 \<Longrightarrow> c < 9 \<Longrightarrow>
   cellAt sampleBoard (r, c) =
     \<lparr>location = \<lparr>row = int r, col = int c\<rparr>, hasMine = ((r, c) \<in> set sampleMines),
      score = sampleScores ! r ! c, flagged = False, revealed = False\<rparr>"
  by (simp add: cellAt_def sampleBoard_def)

lemma sample_inGrid: "inGrid sampleBoard (r, c) \<longleftrightarrow> r < 9 \<and> c < 9"
  by (auto simp: inGrid_def sampleBoard_def)

section \<open>Mine placement\<close>

text \<open>
  Claim C3.  For a board constructed by \<^verbatim>\<open>NewBoard\<close> and a safe location inside the grid,
  when \<^verbatim>\<open>Initialize(safe)\<close> returns it returns without a panic, the grid has rows x cols
  cells, exactly \<^verbatim>\<open>mineCount\<close> of them hold a mine, the cell at the safe location holds none,
  and \<^verbatim>\<open>SafeRemaining()\<close> is rows * cols - mineCount.
\<close>

theorem Initialize_places_mineCount_mines:
  assumes "NewBoard name = Some b0" "ValidLocation b0 safe"
    and "Initialize rnd b0 safe = Some res"
  shows "\<exists>b. res = Inr b
          \<and> length (cells b) = nat (rows b0)
          \<and> (\<forall>r < nat (rows b0). length (cells b ! r) = nat (cols b0))
          \<and> int (length (filter hasMine (concat (cells b)))) = mineCount b0
          \<and> \<not> hasMine (cells b ! nat (row safe) ! nat (col safe))
          \<and> SafeRemaining (Some b) = rows b0 * cols b0 - mineCount b0"
proof -
  note d = NewBoard_dims[OF assms(1)]
  from Initialize_spec[OF d(1,2,3) assms(3)] obtain b where
    b: "res = Inr b" "boardInv b" "rows b = rows b0" "cols b = cols b0" "mineCount b = mineCount b0"
       "int (mineCells b) = mineCount b0"
    and safe: "\<And>p. inGrid b p \<Longrightarrow> locOf p = safe \<Longrightarrow> \<not> hasMine (cellAt b p)"
    by blast
  from b(2) have g: "gridOK b" and i: "initialized b" and c: "countsOK b"
    by (simp_all add: boardInv_def)
  have v: "ValidLocation b safe" using assms(2) b(3,4) by (simp add: ValidLocation_def)
  from ValidLocation_ptrOf[OF g v] safe[of "ptrOf safe"]
  have "\<not> hasMine (cellAt b (ptrOf safe))" by simp
  then have "\<not> hasMine (cells b ! nat (row safe) ! nat (col safe))"
    by (simp add: cellAt_def ptrOf_def)
  moreover have "length (cells b) = nat (rows b0)"
    "\<forall>r < nat (rows b0). length (cells b ! r) = nat (cols b0)"
    using g b(3,4) by (simp_all add: gridOK_def)
  moreover have "SafeRemaining (Some b) = rows b0 * cols b0 - mineCount b0"
    using i c b(3,4,5) by (simp add: SafeRemaining_def countsOK_def)
  ultimately show ?thesis using b(1,6) by (simp add: mineCells_def)
qed

theorem Initialize_places_mineCount_mines_witness:
  "NewBoard ''easy'' = Some easyBoard \<and> ValidLocation easyBoard sampleSafe
   \<and> Initialize sampleDraws easyBoard sampleSafe = Some (Inr sampleBoard)
   \<and> length (cells sampleBoard) = 9
   \<and> int (length (filter hasMine (concat (cells sampleBoard)))) = 10
   \<and> \<not> hasMine (cells sampleBoard ! 4 ! 4)
   \<and> SafeRemaining (Some sampleBoard) = 71"
proof -
  have v: "ValidLocation easyBoard sampleSafe"
    by (simp add: ValidLocation_def easyBoard_def sampleSafe_def zeroBoard_def)
  from Initialize_places_mineCount_mines[OF NewBoard_easy v sample_Initialize]
  obtain b where b: "Inr sampleBoard = (Inr b :: panic + Board)"
      "length (cells b) = nat (rows easyBoard)"
      "int (length (filter hasMine (concat (cells b)))) = mineCount easyBoard"
      "\<not> hasMine (cells b ! nat (row sampleSafe) ! nat (col sampleSafe))"
      "SafeRemaining (Some b) = rows easyBoard * cols easyBoard - mineCount easyBoard"
    by blast
  from b(1) have e: "b = sampleBoard" by simp
  have f: "rows easyBoard = 9" "cols easyBoard = 9" "mineCount easyBoard = 10"
    by (simp_all add: easyBoard_def zeroBoard_def)
  from b(2-5) show ?thesis
    unfolding e f using NewBoard_easy v sample_Initialize by (simp add: sampleSafe_def)
qed

lemma Initialize_scoresOK:
  assumes "NewBoard name = Some b0 \<or> reachable b0" "Initialize rnd b0 safe = Some (Inr b)"
  shows "boardInv b"
proof -
  from assms(1) have "0 \<le> rows b0 \<and> 0 \<le> cols b0 \<and> 0 \<le> mineCount b0"
  proof
    assume "NewBoard name = Some b0"
    from NewBoard_dims(1,2,3)[OF this] show ?thesis by simp
  next
    assume "reachable b0"
    from reachable_inv[OF this] show ?thesis
      by (simp add: boardInv_def gridOK_def countsOK_def)
  qed
  then have d: "0 \<le> rows b0" "0 \<le> cols b0" "0 \<le> mineCount b0" by simp_all
  from Initialize_spec[OF d assms(2)] show ?thesis by simp
qed

lemma sample_scores_row3: "sampleScores ! 3 ! 8 = 1"
  by (simp add: sampleScores_def)

section \<open>Scores\<close>

text \<open>
  Claim C4.  After \<^verbatim>\<open>Initialize\<close> completes (on a board from \<^verbatim>\<open>NewBoard\<close>, or again on a
  board already in play), the score of every cell of the grid is the number of cells of
  its Moore neighbourhood (row and column each at most one away, the cell itself
  excluded, positions outside the grid excluded) that hold a mine.
\<close>

theorem Initialize_scores_count_mine_neighbours:
  assumes "NewBoard name = Some b0 \<or> reachable b0" "Initialize rnd b0 safe = Some (Inr b)"
  shows "\<forall>r c. r < nat (rows b) \<and> c < nat (cols b) \<longrightarrow>
           score (cells b ! r ! c)
             = int (card {q. inGrid b q \<and> adjacent (r, c) q \<and> hasMine (cellAt b q)})"
proof (intro allI impI)
  fix r c assume rc: "r < nat (rows b) \<and> c < nat (cols b)"
  from Initialize_scoresOK[OF assms] have g: "gridOK b" and s: "scoresOK b"
    by (simp_all add: boardInv_def)
  from rc have "inGrid b (r, c)" by (simp add: inGrid_gridOK[OF g])
  with s have "score (cellAt b (r, c)) = int (card (mineNbrs b (r, c)))"
    unfolding scoresOK_def by blast
  then show "score (cells b ! r ! c)
      = int (card {q. inGrid b q \<and> adjacent (r, c) q \<and> hasMine (cellAt b q)})"
    by (simp add: cellAt_def mineNbrs_def)
qed

theorem Initialize_scores_count_mine_neighbours_witness:
  "(NewBoard ''easy'' = Some easyBoard \<or> reachable easyBoard)
   \<and> Initialize sampleDraws easyBoard sampleSafe = Some (Inr sampleBoard)
   \<and> score (cells sampleBoard ! 3 ! 8)
       = int (card {q. inGrid sampleBoard q \<and> adjacent (3, 8) q \<and> hasMine (cellAt sampleBoard q)})"
proof -
  have h: "NewBoard ''easy'' = Some easyBoard \<or> reachable easyBoard"
    using NewBoard_easy by simp
  have rc: "(3::nat) < nat (rows sampleBoard) \<and> (8::nat) < nat (cols sampleBoard)"
    by (simp add: sampleBoard_def)
  from Initialize_scores_count_mine_neighbours[OF h sample_Initialize] rc
  have "score (cells sampleBoard ! 3 ! 8)
       = int (card {q. inGrid sampleBoard q \<and> adjacent (3, 8) q \<and> hasMine (cellAt sampleBoard q)})"
    by blast
  with h sample_Initialize show ?thesis by blast
qed

text \<open>
  Claim C5, as the specification states it, fails: a mine next to another mine has a
  score that is not 0.  In the sample game the cell in row 3, column 8 holds a mine and
  has score 1 (the cell in row 4, column 7 holds a mine too).
\<close>

theorem mine_score_zero_counterexample:
  "NewBoard ''easy'' = Some easyBoard
   \<and> Initialize sampleDraws easyBoard sampleSafe = Some (Inr sampleBoard)
   \<and> hasMine (cells sampleBoard ! 3 ! 8) \<and> score (cells sampleBoard ! 3 ! 8) = 1"
proof -
  have "cells sampleBoard ! 3 ! 8 = cellAt sampleBoard (3, 8)" by (simp add: cellAt_def)
  then have "hasMine (cells sampleBoard ! 3 ! 8)" "score (cells sampleBoard ! 3 ! 8) = 1"
    by (simp_all add: sample_cell sampleMines_def sample_scores_row3)
  with NewBoard_easy sample_Initialize show ?thesis by simp
qed

text \<open>
  Claim C5, amended.  After \<^verbatim>\<open>Initialize\<close> completes, the score of a cell that holds a
  mine is the number of its neighbouring cells that hold a mine, the cell itself not
  counted; so it is 0 exactly when no neighbouring cell holds a mine.
\<close>

theorem Initialize_mine_scores:
  assumes "NewBoard name = Some b0 \<or> reachable b0" "Initialize rnd b0 safe = Some (Inr b)"
    and "inGrid b p" "hasMine (cellAt b p)"
  shows "score (cellAt b p) = int (card {q. inGrid b q \<and> adjacent p q \<and> hasMine (cellAt b q)})
         \<and> p \<notin> {q. inGrid b q \<and> adjacent p q \<and> hasMine (cellAt b q)}
         \<and> (score (cellAt b p) = 0) = (\<forall>q. inGrid b q \<and> adjacent p q \<longrightarrow> \<not> hasMine (cellAt b q))"
proof -
  from Initialize_scoresOK[OF assms(1,2)] have s: "scoresOK b" by (simp add: boardInv_def)
  with assms(3) have sc: "score (cellAt b p) = int (card (mineNbrs b p))"
    unfolding scoresOK_def by blast
  have "card (mineNbrs b p) = 0 \<longleftrightarrow> mineNbrs b p = {}"
    using finite_mineNbrs[of b p] by simp
  then have "(score (cellAt b p) = 0) = (\<forall>q. inGrid b q \<and> adjacent p q \<longrightarrow> \<not> hasMine (cellAt b q))"
    unfolding sc mineNbrs_def by auto
  moreover have "p \<notin> {q. inGrid b q \<and> adjacent p q \<and> hasMine (cellAt b q)}"
    by (simp add: adjacent_def)
  ultimately show ?thesis using sc by (simp add: mineNbrs_def)
qed

theorem Initialize_mine_scores_witness:
  "(NewBoard ''easy'' = Some easyBoard \<or> reachable easyBoard)
   \<and> Initialize sampleDraws easyBoard sampleSafe = Some (Inr sampleBoard)
   \<and> inGrid sampleBoard (3, 8) \<and> hasMine (cellAt sampleBoard (3, 8))
   \<and> score (cellAt sampleBoard (3, 8))
       = int (card {q. inGrid sampleBoard q \<and> adjacent (3, 8) q \<and> hasMine (cellAt sampleBoard q)})"
proof -
  have h: "NewBoard ''easy'' = Some easyBoard \<or> reachable easyBoard"
    using NewBoard_easy by simp
  have i: "inGrid sampleBoard (3, 8)" by (simp add: sample_inGrid)
  have m: "hasMine (cellAt sampleBoard (3, 8))" by (simp add: sample_cell sampleMines_def)
  from Initialize_mine_scores[OF h sample_Initialize i m] h sample_Initialize i m
  show ?thesis by blast
qed

lemma sample_ptr_mine: "ptrOf sampleMineLoc = (0, 0)"
  by (simp add: ptrOf_def sampleMineLoc_def)

lemma sample_valid_mine: "ValidLocation sampleBoard sampleMineLoc"
  by (simp add: ValidLocation_def sampleBoard_def sampleMineLoc_def)

lemma sample_cell_mine:
  "cellAt sampleBoard (0, 0) =
     \<lparr>location = \<lparr>row = 0, col = 0\<rparr>, hasMine = True, score = 0, flagged = False, revealed = False\<rparr>"
  by (simp add: sample_cell sampleMines_def sampleScores_def)

section \<open>Clicking a mine\<close>

text \<open>
  Claim C6.  On a board in play, a click on an unrevealed, unflagged cell that holds a
  mine returns the board with that cell revealed and the explosion flag set, and nothing
  else changed: no other cell, no other field of the clicked cell, no other field of the
  board.  So \<^verbatim>\<open>MineHit()\<close> is true afterwards, \<^verbatim>\<open>SafeRemaining()\<close> is what it was, and no
  reveal was propagated.
\<close>

theorem Click_on_mine:
  assumes "reachable b" "ValidLocation b l"
    and "hasMine (cells b ! nat (row l) ! nat (col l))"
    and "\<not> revealed (cells b ! nat (row l) ! nat (col l))"
    and "\<not> flagged (cells b ! nat (row l) ! nat (col l))"
  shows "\<exists>b'. Click b l = Inr b'
          \<and> b' = b\<lparr>cells := (cells b)[nat (row l) := (cells b ! nat (row l))
                        [nat (col l) := (cells b ! nat (row l) ! nat (col l))\<lparr>revealed := True\<rparr>]],
                    explosionOccured := True\<rparr>
          \<and> MineHit b' \<and> SafeRemaining (Some b') = SafeRemaining (Some b)"
proof -
  from reachable_inv[OF assms(1)] have g: "gridOK b" by (simp add: boardInv_def)
  from ValidLocation_ptrOf[OF g assms(2)] have p: "inGrid b (ptrOf l)" and l: "locOf (ptrOf l) = l"
    by simp_all
  have c: "cellAt b (ptrOf l) = cells b ! nat (row l) ! nat (col l)"
    by (simp add: cellAt_def ptrOf_def)
  from Click_unfold[OF g p] assms(3,4,5)
  have "Click b l = Inr (store b (ptrOf l) ((cellAt b (ptrOf l))\<lparr>revealed := True\<rparr>)\<lparr>explosionOccured := True\<rparr>)"
    unfolding l c by simp
  then show ?thesis
    by (simp add: store_def cellAt_def ptrOf_def MineHit_def SafeRemaining_def)
qed

theorem Click_on_mine_witness:
  "reachable sampleBoard \<and> ValidLocation sampleBoard sampleMineLoc
   \<and> hasMine (cells sampleBoard ! nat (row sampleMineLoc) ! nat (col sampleMineLoc))
   \<and> \<not> revealed (cells sampleBoard ! nat (row sampleMineLoc) ! nat (col sampleMineLoc))
   \<and> \<not> flagged (cells sampleBoard ! nat (row sampleMineLoc) ! nat (col sampleMineLoc))
   \<and> (\<exists>b'. Click sampleBoard sampleMineLoc = Inr b' \<and> MineHit b'
          \<and> SafeRemaining (Some b') = SafeRemaining (Some sampleBoard))"
proof -
  have c: "cells sampleBoard ! nat (row sampleMineLoc) ! nat (col sampleMineLoc) = cellAt sampleBoard (0, 0)"
    by (simp add: cellAt_def sampleMineLoc_def)
  have h: "hasMine (cells sampleBoard ! nat (row sampleMineLoc) ! nat (col sampleMineLoc))"
    "\<not> revealed (cells sampleBoard ! nat (row sampleMineLoc) ! nat (col sampleMineLoc))"
    "\<not> flagged (cells sampleBoard ! nat (row sampleMineLoc) ! nat (col sampleMineLoc))"
    unfolding c by (simp_all add: sample_cell_mine)
  from Click_on_mine[OF sample_reachable sample_valid_mine h]
  have "\<exists>b'. Click sampleBoard sampleMineLoc = Inr b' \<and> MineHit b'
          \<and> SafeRemaining (Some b') = SafeRemaining (Some sampleBoard)"
    by blast
  with sample_reachable sample_valid_mine h show ?thesis by blast
qed

section \<open>Operations before initialization\<close>

text \<open>
  Claim C7 does not hold of the code.  \<^verbatim>\<open>NewBoard\<close> sets \<^verbatim>\<open>rows\<close> and \<^verbatim>\<open>cols\<close> and leaves
  \<^verbatim>\<open>cells\<close> nil, so for a location inside the declared dimensions \<^verbatim>\<open>getCell\<close> passes
  its bounds check and indexes the nil slice: \<^verbatim>\<open>Click\<close> and \<^verbatim>\<open>ToggleFlag\<close> panic with an
  index out of range.  (\<^verbatim>\<open>SafeRemaining\<close>, \<^verbatim>\<open>RevealAll\<close> and \<^verbatim>\<open>ConsoleRender\<close> test
  \<^verbatim>\<open>initialized\<close> first; these two do not.)
\<close>

theorem Click_before_Initialize_panics:
  "NewBoard ''easy'' = Some easyBoard
   \<and> ValidLocation easyBoard \<lparr>row = 0, col = 0\<rparr>
   \<and> getCell easyBoard \<lparr>row = 0, col = 0\<rparr> = Inl IndexOutOfRange
   \<and> Click easyBoard \<lparr>row = 0, col = 0\<rparr> = Inl IndexOutOfRange
   \<and> ToggleFlag easyBoard \<lparr>row = 0, col = 0\<rparr> = Inl IndexOutOfRange"
  using NewBoard_easy
  by (simp add: Click_def ToggleFlag_def getCell_def ValidLocation_def easyBoard_def zeroBoard_def)

text \<open>
  What does hold before initialization: a location outside the declared dimensions is
  found absent and changes nothing, and the queries return their neutral values.
\<close>

lemma uninitialized_outside:
  assumes "NewBoard name = Some b" "\<not> ValidLocation b l"
  shows "Click b l = Inr b" "ToggleFlag b l = Inr b"
  using assms by (auto simp: Click_def ToggleFlag_def getCell_def ValidLocation_def split: if_splits)

lemma uninitialized_panics:
  assumes "NewBoard name = Some b" "ValidLocation b l"
  shows "Click b l = Inl IndexOutOfRange" "ToggleFlag b l = Inl IndexOutOfRange"
  using assms
  by (auto simp: Click_def ToggleFlag_def getCell_def ValidLocation_def NewBoard_def
      boardDefinitionsDict_def zeroBoard_def split: if_splits)

lemma uninitialized_queries:
  assumes "NewBoard name = Some b"
  shows "SafeRemaining (Some b) = 0" "\<not> Initialized (Some b)" "\<not> MineHit b"
    "RevealAll (Some b) = Inl ''called RevealAll() on an uninitialized board''"
  using assms
  by (auto simp: SafeRemaining_def Initialized_def MineHit_def RevealAll_def NewBoard_def
      boardDefinitionsDict_def zeroBoard_def split: if_splits)

section \<open>The count of safe cells remaining\<close>

text \<open>
  No operation after \<^verbatim>\<open>Initialize\<close> writes \<^verbatim>\<open>safeRemaining\<close>: on every board in play it
  is rows * cols - mineCount, whatever has been revealed.
\<close>

lemma reachable_SafeRemaining:
  assumes "reachable b"
  shows "SafeRemaining (Some b) = rows b * cols b - mineCount b"
  using reachable_inv[OF assms] by (simp add: boardInv_def countsOK_def SafeRemaining_def)

lemma Click_SafeRemaining:
  assumes "reachable b"
  shows "\<exists>b'. Click b l = Inr b' \<and> SafeRemaining (Some b') = SafeRemaining (Some b)"
proof -
  from Click_preserves[OF reachable_inv[OF assms], of l] obtain b' where
    b': "Click b l = Inr b'" "boardInv b'" "safeRemaining b' = safeRemaining b" by blast
  from b'(2) reachable_inv[OF assms] have "initialized b'" "initialized b"
    by (simp_all add: boardInv_def)
  with b'(1,3) show ?thesis by (simp add: SafeRemaining_def)
qed

text \<open>
  Claim C1 does not hold of the code.  In the sample game the click on the safe cell
  (row 4, column 4: no mine, score 1, not revealed) reveals it, and the click on the cell
  in row 0, column 2 (no mine, score 0) reveals eight cells, none of them a mine; after
  either click \<^verbatim>\<open>SafeRemaining()\<close> is 71, as before it.
\<close>

theorem Click_leaves_SafeRemaining:
  "SafeRemaining (Some sampleBoard) = 71
   \<and> unrevealedCount sampleBoard = 81
   \<and> map_sum id (\<lambda>b. (revealed (cellAt b (4, 4)), hasMine (cellAt b (4, 4)),
                        unrevealedCount b, SafeRemaining (Some b)))
        (Click sampleBoard sampleSafe) = Inr (True, False, 80, 71)
   \<and> map_sum id (\<lambda>b. (revealed (cellAt b (0, 2)), hasMine (cellAt b (0, 2)),
                        unrevealedCount b, SafeRemaining (Some b)))
        (Click sampleBoard \<lparr>row = 0, col = 2\<rparr>) = Inr (True, False, 73, 71)"
  by code_simp

lemma eraseFlags_getCell:
  assumes "eraseFlags b2 = eraseFlags b"
  shows "getCell b2 l = getCell b l"
proof -
  note e = assms[unfolded eraseFlags_def]
  have "inGrid b2 (nat (row l), nat (col l)) = inGrid b (nat (row l), nat (col l))"
    by (rule mapCells_eq_inGrid[OF e])
  then show ?thesis
    using mapCells_eq_fields(1,2)[OF e] by (simp add: getCell_def inGrid_def)
qed

lemma eraseFlags_collectNeighbors:
  assumes "eraseFlags b2 = eraseFlags b"
  shows "collectNeighbors b2 loc ls acc = collectNeighbors b loc ls acc"
  by (induction ls arbitrary: acc)
     (auto simp: eraseFlags_getCell[OF assms] split: sum.splits option.splits)

lemma eraseFlags_getNeighborCells:
  assumes "eraseFlags b2 = eraseFlags b"
  shows "getNeighborCells b2 loc = getNeighborCells b loc"
  by (simp add: getNeighborCells_def eraseFlags_getCell[OF assms]
      eraseFlags_collectNeighbors[OF assms] split: sum.splits option.splits)

lemma eraseFlags_load:
  assumes "eraseFlags b2 = eraseFlags b"
  shows "(load b2 p = Inl InvalidAddress \<and> load b p = Inl InvalidAddress)
       \<or> (\<exists>c2 c. load b2 p = Inr c2 \<and> load b p = Inr c \<and> inGrid b p \<and> inGrid b2 p
              \<and> c2\<lparr>flagged := False\<rparr> = c\<lparr>flagged := False\<rparr>)"
proof -
  note e = assms[unfolded eraseFlags_def]
  have i: "inGrid b2 p = inGrid b p" by (rule mapCells_eq_inGrid[OF e])
  show ?thesis
  proof (cases "inGrid b p")
    case True
    from mapCells_eq_cell[OF e True] True i show ?thesis by (simp add: load_eq)
  next
    case False
    with i show ?thesis by (simp add: load_eq)
  qed
qed

lemma mapCells_store_comm:
  assumes "inGrid b n"
  shows "mapCells f (store b n c) = store (mapCells f b) n (f c)"
  using assms by (simp add: mapCells_def store_def inGrid_def map_update)

lemma unflag_fields:
  assumes "c2\<lparr>flagged := False\<rparr> = c\<lparr>flagged := False\<rparr>"
  shows "revealed c2 = revealed c" "score c2 = score c" "location c2 = location c"
    "(c2\<lparr>revealed := True\<rparr>)\<lparr>flagged := False\<rparr> = (c\<lparr>revealed := True\<rparr>)\<lparr>flagged := False\<rparr>"
proof -
  have "revealed (c2\<lparr>flagged := False\<rparr>) = revealed (c\<lparr>flagged := False\<rparr>)" using assms by simp
  then show "revealed c2 = revealed c" by simp
  have "score (c2\<lparr>flagged := False\<rparr>) = score (c\<lparr>flagged := False\<rparr>)" using assms by simp
  then show "score c2 = score c" by simp
  have "location (c2\<lparr>flagged := False\<rparr>) = location (c\<lparr>flagged := False\<rparr>)" using assms by simp
  then show "location c2 = location c" by simp
  show "(c2\<lparr>revealed := True\<rparr>)\<lparr>flagged := False\<rparr> = (c\<lparr>revealed := True\<rparr>)\<lparr>flagged := False\<rparr>"
    using assms by (cases c2; cases c) simp
qed

text \<open>
  Two boards that differ only in their flags go through the propagation alike: the same
  panic, or boards that again differ only in their flags.
\<close>

lemma flags_irrelevant:
  "eraseFlags b2 = eraseFlags b \<Longrightarrow>
     map_sum id eraseFlags (PropagateReveals b2 c) = map_sum id eraseFlags (PropagateReveals b c)"
  "eraseFlags b2 = eraseFlags b \<Longrightarrow>
     map_sum id eraseFlags (revealNeighbors b2 ns) = map_sum id eraseFlags (revealNeighbors b ns)"
proof (induction b c and b ns arbitrary: b2 and b2 rule: PropagateReveals_revealNeighbors.induct)
  case (1 b)
  then show ?case by simp
next
  case (2 b p)
  from eraseFlags_load[OF "2.prems", of p] show ?case
  proof (elim disjE conjE exE)
    assume "load b2 p = Inl InvalidAddress" "load b p = Inl InvalidAddress"
    then show ?thesis by simp
  next
    fix c2 c assume l: "load b2 p = Inr c2" "load b p = Inr c"
      and u: "c2\<lparr>flagged := False\<rparr> = c\<lparr>flagged := False\<rparr>"
    note loc = unflag_fields(3)[OF u]
    show ?thesis
    proof (cases "getNeighborCells b (location c)")
      case (Inl e)
      then show ?thesis using l loc by (simp add: eraseFlags_getNeighborCells[OF "2.prems"])
    next
      case (Inr neighbors)
      from "2.IH"[OF l(2) Inr "2.prems"] show ?thesis
        using l loc Inr by (simp add: eraseFlags_getNeighborCells[OF "2.prems"])
    qed
  qed
next
  case (3 b)
  then show ?case by simp
next
  case (4 b n ns)
  from eraseFlags_load[OF "4.prems", of n] show ?case
  proof (elim disjE conjE exE)
    assume "load b2 n = Inl InvalidAddress" "load b n = Inl InvalidAddress"
    then show ?thesis by simp
  next
    fix c2 c assume l: "load b2 n = Inr c2" "load b n = Inr c"
      and i: "inGrid b n" "inGrid b2 n"
      and u: "c2\<lparr>flagged := False\<rparr> = c\<lparr>flagged := False\<rparr>"
    note uf = unflag_fields[OF u]
    show ?thesis
    proof (cases "revealed c")
      case True
      from "4.IH"(1)[OF l(2) True "4.prems"] show ?thesis using l True uf(1) by simp
    next
      case False
      define b1 where "b1 = store b n (c\<lparr>revealed := True\<rparr>)"
      define b21 where "b21 = store b2 n (c2\<lparr>revealed := True\<rparr>)"
      have e1: "eraseFlags b21 = eraseFlags b1"
        unfolding eraseFlags_def b1_def b21_def
        using "4.prems" uf(4)
        by (simp add: mapCells_store_comm[OF i(1)] mapCells_store_comm[OF i(2)] eraseFlags_def)
      show ?thesis
      proof (cases "score c = 0")
        case nz: False
        from "4.IH"(4)[OF l(2) False b1_def nz e1] show ?thesis
          using l False nz uf(1,2) by (simp add: b1_def b21_def)
      next
        case True
        from "4.IH"(2)[OF l(2) False b1_def True e1]
        have p: "map_sum id eraseFlags (PropagateReveals b21 (Some n))
                = map_sum id eraseFlags (PropagateReveals b1 (Some n))" .
        show ?thesis
        proof (cases "PropagateReveals b1 (Some n)")
          case (Inl e)
          with p have "PropagateReveals b21 (Some n) = Inl e"
            by (cases "PropagateReveals b21 (Some n)") simp_all
          with Inl show ?thesis
            using l False True uf(1,2) by (simp add: b1_def b21_def)
        next
          case (Inr b3)
          with p obtain b23 where b23: "PropagateReveals b21 (Some n) = Inr b23"
            "eraseFlags b23 = eraseFlags b3"
            by (cases "PropagateReveals b21 (Some n)") simp_all
          from "4.IH"(3)[OF l(2) False b1_def True Inr b23(2)] show ?thesis
            using l False True uf(1,2) Inr b23(1) by (simp add: b1_def b21_def)
        qed
      qed
    qed
  qed
qed

lemma floodSet_inGrid:
  assumes "inGrid b p"
  shows "floodSet b p \<subseteq> {q. inGrid b q}"
proof -
  have "inGrid b z" if "z \<in> zeroReach b p" for z
    using that assms by induction simp_all
  then show ?thesis by (auto simp: floodSet_def nbrOf_def)
qed

lemma floodSet_border:
  assumes "inGrid b q" "adjacent p q" "score (cellAt b q) \<noteq> 0"
  shows "q \<in> floodSet b p"
  using assms zeroReach.start[of p b] by (auto simp: floodSet_def nbrOf_def)

lemma sample_zero_facts:
  "ptrOf sampleZeroLoc = (0, 2)" "ValidLocation sampleBoard sampleZeroLoc"
  "cellAt sampleBoard (0, 2) =
     \<lparr>location = \<lparr>row = 0, col = 2\<rparr>, hasMine = False, score = 0, flagged = False, revealed = False\<rparr>"
  "cellAt sampleBoard (0, 1) =
     \<lparr>location = \<lparr>row = 0, col = 1\<rparr>, hasMine = False, score = 1, flagged = False, revealed = False\<rparr>"
proof -
  show "ptrOf sampleZeroLoc = (0, 2)" by (simp add: ptrOf_def sampleZeroLoc_def)
  show "ValidLocation sampleBoard sampleZeroLoc"
    by (simp add: sampleZeroLoc_def ValidLocation_def sampleBoard_def)
  show "cellAt sampleBoard (0, 2) =
     \<lparr>location = \<lparr>row = 0, col = 2\<rparr>, hasMine = False, score = 0, flagged = False, revealed = False\<rparr>"
    by (simp add: sample_cell sampleMines_def sampleScores_def)
  show "cellAt sampleBoard (0, 1) =
     \<lparr>location = \<lparr>row = 0, col = 1\<rparr>, hasMine = False, score = 1, flagged = False, revealed = False\<rparr>"
    by (simp add: sample_cell sampleMines_def sampleScores_def)
qed

lemma sample_border: "(0, 1) \<in> floodSet sampleBoard (0, 2)"
proof (rule floodSet_border)
  show "inGrid sampleBoard (0, 1)" unfolding sample_inGrid by simp
  show "adjacent (0, 2) (0, 1)" by (simp add: adjacent_def)
  show "score (cellAt sampleBoard (0, 1)) \<noteq> 0" unfolding sample_zero_facts(4) by simp
qed

section \<open>The flood fill\<close>

text \<open>
  Claim C2, as the specification states it, fails for a cell that holds a mine and has
  score 0 (a mine with no mine beside it): the click reveals that cell alone.  In the
  sample game the cell in row 0, column 0 is such a cell; the cell in row 0, column 1
  (score 1) is on the border of its zero-score region and stays hidden.
\<close>

theorem Click_zero_mine_counterexample:
  "reachable sampleBoard \<and> ValidLocation sampleBoard sampleMineLoc
   \<and> \<not> revealed (cellAt sampleBoard (ptrOf sampleMineLoc))
   \<and> \<not> flagged (cellAt sampleBoard (ptrOf sampleMineLoc))
   \<and> score (cellAt sampleBoard (ptrOf sampleMineLoc)) = 0
   \<and> (0, 1) \<in> floodSet sampleBoard (ptrOf sampleMineLoc)
   \<and> map_sum id (\<lambda>b. revealed (cellAt b (0, 1))) (Click sampleBoard sampleMineLoc) = Inr False"
proof -
  have f: "(0, 1) \<in> floodSet sampleBoard (0, 0)"
  proof (rule floodSet_border)
    show "inGrid sampleBoard (0, 1)" unfolding sample_inGrid by simp
    show "adjacent (0, 0) (0, 1)" by (simp add: adjacent_def)
    show "score (cellAt sampleBoard (0, 1)) \<noteq> 0" unfolding sample_zero_facts(4) by simp
  qed
  have c: "map_sum id (\<lambda>b. revealed (cellAt b (0, 1))) (Click sampleBoard sampleMineLoc) = Inr False"
    by code_simp
  show ?thesis
    using sample_reachable sample_valid_mine f c
    by (simp add: sample_ptr_mine sample_cell_mine)
qed

text \<open>
  Claim C2, amended.  On a board in play, a click on an unrevealed, unflagged cell that
  holds no mine and has score 0 returns without a panic, and afterwards the revealed
  cells are those revealed before together with the cells of \<open>floodSet\<close>: the cells
  joined to the clicked one by a path of neighbouring zero-score cells, and the
  non-zero-score neighbours of those cells.  All these are cells of the grid, and nothing
  but \<^verbatim>\<open>revealed\<close> flags changes.
\<close>

theorem Click_zero_reveals_region:
  assumes "reachable b" "ValidLocation b l"
    and "\<not> revealed (cellAt b (ptrOf l))" "\<not> flagged (cellAt b (ptrOf l))"
    and "score (cellAt b (ptrOf l)) = 0" "\<not> hasMine (cellAt b (ptrOf l))"
  shows "\<exists>b'. Click b l = Inr b'
          \<and> (\<forall>q. inGrid b q \<longrightarrow>
                 revealed (cellAt b' q) = (revealed (cellAt b q) \<or> q \<in> floodSet b (ptrOf l)))
          \<and> floodSet b (ptrOf l) \<subseteq> {q. inGrid b q}
          \<and> eraseRevealed b' = eraseRevealed b"
proof -
  from reachable_inv[OF assms(1)] have g: "gridOK b" and s: "scoresOK b" and cz: "closedZeros b"
    by (simp_all add: boardInv_def)
  from ValidLocation_ptrOf[OF g assms(2)] have p: "inGrid b (ptrOf l)" and l: "locOf (ptrOf l) = l"
    by simp_all
  from Click_zero_spec[OF g s cz p assms(4,3,6,5)] obtain b' where
    b': "Click b l = Inr b'" "floods b b'"
    and r: "\<And>q. revealedAt b' q \<longleftrightarrow> revealedAt b q \<or> q \<in> floodSet b (ptrOf l)"
    unfolding l by blast
  have "revealed (cellAt b' q) = (revealed (cellAt b q) \<or> q \<in> floodSet b (ptrOf l))"
    if "inGrid b q" for q
    using r[of q] that floods_facts(1)[OF b'(2), of q] by (simp add: revealedAt_def)
  moreover have "eraseRevealed b' = eraseRevealed b" using b'(2) by (simp add: floods_def)
  ultimately show ?thesis using b'(1) floodSet_inGrid[OF p] by blast
qed

theorem Click_zero_reveals_region_witness:
  "reachable sampleBoard \<and> ValidLocation sampleBoard sampleZeroLoc
   \<and> \<not> revealed (cellAt sampleBoard (ptrOf sampleZeroLoc))
   \<and> \<not> flagged (cellAt sampleBoard (ptrOf sampleZeroLoc))
   \<and> score (cellAt sampleBoard (ptrOf sampleZeroLoc)) = 0
   \<and> \<not> hasMine (cellAt sampleBoard (ptrOf sampleZeroLoc))
   \<and> (\<exists>b'. Click sampleBoard sampleZeroLoc = Inr b' \<and> revealed (cellAt b' (0, 1))
          \<and> eraseRevealed b' = eraseRevealed sampleBoard)"
proof -
  have h: "\<not> revealed (cellAt sampleBoard (ptrOf sampleZeroLoc))"
    "\<not> flagged (cellAt sampleBoard (ptrOf sampleZeroLoc))"
    "score (cellAt sampleBoard (ptrOf sampleZeroLoc)) = 0"
    "\<not> hasMine (cellAt sampleBoard (ptrOf sampleZeroLoc))"
    by (simp_all add: sample_zero_facts)
  from Click_zero_reveals_region[OF sample_reachable sample_zero_facts(2) h]
  obtain b' where b': "Click sampleBoard sampleZeroLoc = Inr b'"
    "\<And>q. inGrid sampleBoard q \<Longrightarrow>
       revealed (cellAt b' q) = (revealed (cellAt sampleBoard q) \<or> q \<in> floodSet sampleBoard (ptrOf sampleZeroLoc))"
    "eraseRevealed b' = eraseRevealed sampleBoard"
    by blast
  have "revealed (cellAt b' (0, 1))"
    using b'(2)[of "(0, 1)"] sample_border by (simp add: sample_inGrid sample_zero_facts(1))
  with b'(1,3) sample_reachable sample_zero_facts(2) h show ?thesis by blast
qed

lemma sample_ToggleFlag: "ToggleFlag sampleBoard \<lparr>row = 0, col = 1\<rparr> = Inr sampleFlagged"
  by code_simp

lemma sampleFlagged_reachable: "reachable sampleFlagged"
  by (rule reachable.flag[OF sample_reachable sample_ToggleFlag])

lemma sampleFlagged_facts:
  "ValidLocation sampleFlagged sampleZeroLoc" "inGrid sampleFlagged (0, 1)"
  "cellAt sampleFlagged (0, 2) = cellAt sampleBoard (0, 2)"
  "cellAt sampleFlagged (0, 1) = (cellAt sampleBoard (0, 1))\<lparr>flagged := True\<rparr>"
  by (simp_all add: sampleFlagged_def ValidLocation_def cellAt_store sample_inGrid sampleZeroLoc_def)
     (simp_all add: sampleBoard_def)

text \<open>
  Claim C10.  A flag protects a cell from a direct click only.  On a board in play, when
  the click on an unrevealed, unflagged, mine-free cell of score 0 starts the reveal
  propagation, a flagged unrevealed cell of the region it reaches (the zero-score region
  of the clicked cell or its border) is revealed, and its flag stays set.
  \<^verbatim>\<open>PropagateReveals\<close> does not consult the flags: on two boards that differ only in
  flags it ends alike, with the same panic or with boards that differ only in flags.
\<close>

theorem flood_reveals_flagged_cells:
  assumes "reachable b" "ValidLocation b l"
    and "\<not> revealed (cellAt b (ptrOf l))" "\<not> flagged (cellAt b (ptrOf l))"
    and "score (cellAt b (ptrOf l)) = 0" "\<not> hasMine (cellAt b (ptrOf l))"
    and "q \<in> floodSet b (ptrOf l)" "flagged (cellAt b q)" "\<not> revealed (cellAt b q)"
  shows "(\<exists>b'. Click b l = Inr b' \<and> revealed (cellAt b' q) \<and> flagged (cellAt b' q))
       \<and> (\<forall>b2 c. eraseFlags b2 = eraseFlags b \<longrightarrow>
             map_sum id eraseFlags (PropagateReveals b2 c)
               = map_sum id eraseFlags (PropagateReveals b c))"
proof -
  from reachable_inv[OF assms(1)] have g: "gridOK b" and s: "scoresOK b" and cz: "closedZeros b"
    by (simp_all add: boardInv_def)
  from ValidLocation_ptrOf[OF g assms(2)] have p: "inGrid b (ptrOf l)" and l: "locOf (ptrOf l) = l"
    by simp_all
  from Click_zero_spec[OF g s cz p assms(4,3,6,5)] obtain b' where
    b': "Click b l = Inr b'" "floods b b'"
    and r: "\<And>q. revealedAt b' q \<longleftrightarrow> revealedAt b q \<or> q \<in> floodSet b (ptrOf l)"
    unfolding l by blast
  from floodSet_inGrid[OF p] assms(7) have q: "inGrid b q" by blast
  from r[of q] assms(7) have "revealed (cellAt b' q)" by (simp add: revealedAt_def)
  moreover have "flagged (cellAt b' q)" using floods_flagged[OF b'(2) q] assms(8) by simp
  ultimately show ?thesis using b'(1) flags_irrelevant(1) by blast
qed

theorem flood_reveals_flagged_cells_witness:
  "reachable sampleFlagged \<and> ValidLocation sampleFlagged sampleZeroLoc
   \<and> \<not> revealed (cellAt sampleFlagged (ptrOf sampleZeroLoc))
   \<and> \<not> flagged (cellAt sampleFlagged (ptrOf sampleZeroLoc))
   \<and> score (cellAt sampleFlagged (ptrOf sampleZeroLoc)) = 0
   \<and> \<not> hasMine (cellAt sampleFlagged (ptrOf sampleZeroLoc))
   \<and> (0, 1) \<in> floodSet sampleFlagged (ptrOf sampleZeroLoc)
   \<and> flagged (cellAt sampleFlagged (0, 1)) \<and> \<not> revealed (cellAt sampleFlagged (0, 1))
   \<and> (\<exists>b'. Click sampleFlagged sampleZeroLoc = Inr b'
          \<and> revealed (cellAt b' (0, 1)) \<and> flagged (cellAt b' (0, 1)))"
proof -
  have h: "\<not> revealed (cellAt sampleFlagged (ptrOf sampleZeroLoc))"
    "\<not> flagged (cellAt sampleFlagged (ptrOf sampleZeroLoc))"
    "score (cellAt sampleFlagged (ptrOf sampleZeroLoc)) = 0"
    "\<not> hasMine (cellAt sampleFlagged (ptrOf sampleZeroLoc))"
    by (simp_all add: sample_zero_facts sampleFlagged_facts)
  have f: "(0, 1) \<in> floodSet sampleFlagged (ptrOf sampleZeroLoc)"
    unfolding sample_zero_facts(1)
  proof (rule floodSet_border)
    show "inGrid sampleFlagged (0, 1)" by (rule sampleFlagged_facts(2))
    show "adjacent (0, 2) (0, 1)" by (simp add: adjacent_def)
    show "score (cellAt sampleFlagged (0, 1)) \<noteq> 0"
      unfolding sampleFlagged_facts(4) sample_zero_facts(4) by simp
  qed
  have k: "flagged (cellAt sampleFlagged (0, 1))" "\<not> revealed (cellAt sampleFlagged (0, 1))"
    unfolding sampleFlagged_facts(4) sample_zero_facts(4) by simp_all
  from flood_reveals_flagged_cells[OF sampleFlagged_reachable sampleFlagged_facts(1) h f k]
  have "\<exists>b'. Click sampleFlagged sampleZeroLoc = Inr b'
          \<and> revealed (cellAt b' (0, 1)) \<and> flagged (cellAt b' (0, 1))"
    by blast
  with sampleFlagged_reachable sampleFlagged_facts(1) h f k show ?thesis by blast
qed

lemma PropagateRevealsT_total:
  "PropagateRevealsT_revealNeighborsT_dom (Inl (b, c))"
  "PropagateRevealsT_revealNeighborsT_dom (Inr (b, ns))"
  by (induction b c and b ns rule: PropagateRevealsT_revealNeighborsT.induct)
     (auto intro: PropagateRevealsT_revealNeighborsT.domintros)

lemma trace_erasure:
  "map_sum id fst (PropagateRevealsT b c) = PropagateReveals b c"
  "map_sum id fst (revealNeighborsT b ns) = revealNeighbors b ns"
proof -
  show "map_sum id fst (PropagateRevealsT b c) = PropagateReveals b c"
    by (rule trace_erasure_dom(1)[OF PropagateRevealsT_total(1)])
  show "map_sum id fst (revealNeighborsT b ns) = revealNeighbors b ns"
    by (rule trace_erasure_dom(2)[OF PropagateRevealsT_total(2)])
qed

lemma freshTrace_Nil: "freshTrace b b' []"
  by (simp add: freshTrace_def)

lemma freshTrace_append:
  assumes m01: "\<And>q. revealedAt b q \<Longrightarrow> revealedAt b1 q"
    and m12: "\<And>q. revealedAt b1 q \<Longrightarrow> revealedAt b2 q"
    and m23: "\<And>q. revealedAt b2 q \<Longrightarrow> revealedAt b3 q"
    and n: "\<not> revealedAt b n" "revealedAt b1 n"
    and t1: "freshTrace b1 b2 tr1" and t2: "freshTrace b2 b3 tr2"
  shows "freshTrace b b3 (n # tr1 @ tr2)"
proof -
  from t1 have d1: "distinct tr1" and f1: "\<And>e. e \<in> set tr1 \<Longrightarrow> \<not> revealedAt b1 e \<and> revealedAt b2 e"
    by (simp_all add: freshTrace_def)
  from t2 have d2: "distinct tr2" and f2: "\<And>e. e \<in> set tr2 \<Longrightarrow> \<not> revealedAt b2 e \<and> revealedAt b3 e"
    by (simp_all add: freshTrace_def)
  have "n \<notin> set tr1" using f1 n(2) by blast
  moreover have "n \<notin> set tr2" using f2 m12 n(2) by blast
  moreover have "set tr1 \<inter> set tr2 = {}" using f1 f2 by blast
  ultimately have "distinct (n # tr1 @ tr2)" using d1 d2 by simp
  moreover have "\<not> revealedAt b e \<and> revealedAt b3 e" if "e \<in> set (n # tr1 @ tr2)" for e
  proof -
    from that consider "e = n" | "e \<in> set tr1" | "e \<in> set tr2" by auto
    then show ?thesis
    proof cases
      case 1
      with n m12 m23 show ?thesis by blast
    next
      case 2
      with f1 m01 m23 show ?thesis by blast
    next
      case 3
      with f2 m01 m12 show ?thesis by blast
    qed
  qed
  ultimately show ?thesis unfolding freshTrace_def by blast
qed

lemma freshTrace_earlier:
  assumes "\<And>q. revealedAt b q \<Longrightarrow> revealedAt b1 q" "freshTrace b1 b' tr"
  shows "freshTrace b b' tr"
  using assms unfolding freshTrace_def by blast

text \<open>
  What the propagation enters: the starting cell, and after it only cells that were not
  revealed when it started and are revealed when it ends, each once.  It clears no
  \<^verbatim>\<open>revealed\<close> flag.
\<close>

lemma trace_fresh:
  "PropagateRevealsT b c = Inr (b', tr) \<Longrightarrow>
     (\<forall>q. revealedAt b q \<longrightarrow> revealedAt b' q)
     \<and> (case c of None \<Rightarrow> tr = [] | Some p \<Rightarrow> tr = p # tl tr \<and> freshTrace b b' (tl tr))"
  "revealNeighborsT b ns = Inr (b'', tr') \<Longrightarrow>
     (\<forall>q. revealedAt b q \<longrightarrow> revealedAt b'' q) \<and> freshTrace b b'' tr'"
proof (induction b c and b ns arbitrary: b' tr and b'' tr'
    rule: PropagateRevealsT_revealNeighborsT.induct)
  case (1 b)
  then show ?case by (simp add: freshTrace_Nil)
next
  case (2 b p)
  from "2.prems" obtain c neighbors r where
    c: "load b p = Inr c" and ns: "getNeighborCells b (location c) = Inr neighbors"
    and r: "revealNeighborsT b neighbors = Inr r" and res: "b' = fst r" "tr = p # snd r"
    by (auto split: sum.splits)
  from "2.IH"[OF c ns, of "fst r" "snd r"] r res show ?case by simp
next
  case (3 b)
  then show ?case by (simp add: freshTrace_Nil)
next
  case (4 b n ns)
  from "4.prems" obtain c where c: "load b n = Inr c" by (auto split: sum.splits)
  then have n: "inGrid b n" and cc: "c = cellAt b n"
    by (auto simp: load_eq split: if_splits)
  show ?case
  proof (cases "revealed c")
    case True
    with "4.prems" c have "revealNeighborsT b ns = Inr (b'', tr')" by simp
    from "4.IH"(1)[OF c True this] show ?thesis .
  next
    case False
    define b1 where "b1 = store b n (c\<lparr>revealed := True\<rparr>)"
    have r1: "\<And>q. revealedAt b1 q = (q = n \<or> revealedAt b q)"
      unfolding b1_def cc by (rule revealedAt_store[OF n])
    have nr: "\<not> revealedAt b n" using False cc by (simp add: revealedAt_def)
    have m01: "\<And>q. revealedAt b q \<Longrightarrow> revealedAt b1 q" by (simp add: r1)
    show ?thesis
    proof (cases "score c = 0")
      case nz: False
      with "4.prems" c False have "revealNeighborsT b1 ns = Inr (b'', tr')"
        by (simp add: b1_def)
      from "4.IH"(4)[OF c False b1_def nz this]
      have m: "\<forall>q. revealedAt b1 q \<longrightarrow> revealedAt b'' q" and f: "freshTrace b1 b'' tr'"
        by simp_all
      from m m01 have "\<forall>q. revealedAt b q \<longrightarrow> revealedAt b'' q" by blast
      with freshTrace_earlier[OF m01 f] show ?thesis by blast
    next
      case True
      with "4.prems" c False obtain r1' r2 where
        p: "PropagateRevealsT b1 (Some n) = Inr r1'"
        and q: "revealNeighborsT (fst r1') ns = Inr r2"
        and res: "b'' = fst r2" "tr' = snd r1' @ snd r2"
        by (auto simp: b1_def Let_def split: sum.splits)
      have p': "PropagateRevealsT b1 (Some n) = Inr (fst r1', snd r1')"
        unfolding prod.collapse by (rule p)
      have q': "revealNeighborsT (fst r1') ns = Inr (fst r2, snd r2)"
        unfolding prod.collapse by (rule q)
      from "4.IH"(2)[OF c False b1_def True p']
      have m12: "\<And>q. revealedAt b1 q \<Longrightarrow> revealedAt (fst r1') q"
        and t1: "snd r1' = n # tl (snd r1')" "freshTrace b1 (fst r1') (tl (snd r1'))"
        unfolding option.case by blast+
      from "4.IH"(3)[OF c False b1_def True p q']
      have m23: "\<And>q. revealedAt (fst r1') q \<Longrightarrow> revealedAt (fst r2) q"
        and t2: "freshTrace (fst r1') (fst r2) (snd r2)"
        by blast+
      have "revealedAt b1 n" by (simp add: r1)
      from freshTrace_append[OF m01 m12 m23 nr this t1(2) t2]
      have "freshTrace b (fst r2) (n # tl (snd r1') @ snd r2)" .
      with t1(1) have "freshTrace b b'' tr'" unfolding res by (metis append_Cons)
      moreover have "\<forall>q. revealedAt b q \<longrightarrow> revealedAt b'' q"
        unfolding res using m01 m12 m23 by blast
      ultimately show ?thesis by blast
    qed
  qed
qed

section \<open>Termination of the flood fill\<close>

text \<open>
  Claim C9.  \<^verbatim>\<open>PropagateReveals\<close> terminates for every board and every starting cell:
  every argument of the recursion (and of its loop) is in its domain.  The board passed
  to a recursive call has one unrevealed cell fewer than the board before the
  neighbour was revealed; the propagation clears no \<^verbatim>\<open>revealed\<close> flag and returns no
  more unrevealed cells than it was given.  The cells it enters after the starting cell
  are cells that were unrevealed at the start and are revealed at the end, each entered
  once; when the starting cell is already revealed, as in \<^verbatim>\<open>Click\<close>, no cell is entered
  twice.  On a board in play, started at a cell of the grid, it returns a board.
\<close>

theorem PropagateReveals_terminates:
  "PropagateReveals_revealNeighbors_dom (Inl (b, c))
   \<and> PropagateReveals_revealNeighbors_dom (Inr (b, ns))
   \<and> (\<forall>cl. load b n = Inr cl \<and> \<not> revealed cl \<longrightarrow>
          Suc (unrevealedCount (store b n (cl\<lparr>revealed := True\<rparr>))) = unrevealedCount b)
   \<and> (\<forall>b'. PropagateReveals b c = Inr b' \<longrightarrow>
          unrevealedCount b' \<le> unrevealedCount b \<and> (\<forall>q. revealedAt b q \<longrightarrow> revealedAt b' q))
   \<and> map_sum id fst (PropagateRevealsT b c) = PropagateReveals b c
   \<and> (\<forall>p b' entered. c = Some p \<and> PropagateRevealsT b c = Inr (b', entered) \<longrightarrow>
          entered = p # tl entered \<and> distinct (tl entered)
          \<and> (\<forall>e\<in>set (tl entered). \<not> revealedAt b e \<and> revealedAt b' e)
          \<and> (revealedAt b p \<longrightarrow> distinct entered))
   \<and> (reachable b \<and> (\<forall>p. c = Some p \<longrightarrow> inGrid b p) \<longrightarrow> (\<exists>b'. PropagateReveals b c = Inr b'))"
proof (intro conjI allI impI)
  show "PropagateReveals_revealNeighbors_dom (Inl (b, c))" by (rule PropagateReveals_total(1))
  show "PropagateReveals_revealNeighbors_dom (Inr (b, ns))" by (rule PropagateReveals_total(2))
  show "Suc (unrevealedCount (store b n (cl\<lparr>revealed := True\<rparr>))) = unrevealedCount b"
    if "load b n = Inr cl \<and> \<not> revealed cl" for cl
    using that unrevealedCount_store[of b n cl] by simp
  show e: "map_sum id fst (PropagateRevealsT b c) = PropagateReveals b c" by (rule trace_erasure(1))
  show "unrevealedCount b' \<le> unrevealedCount b" if "PropagateReveals b c = Inr b'" for b'
    by (rule unrevealedCount_mono_dom(1)[OF PropagateReveals_total(1) that])
  show "revealedAt b' q" if "PropagateReveals b c = Inr b'" "revealedAt b q" for b' q
  proof -
    from that(1) e obtain r where "PropagateRevealsT b c = Inr r" "fst r = b'"
      by (cases "PropagateRevealsT b c") auto
    then have "PropagateRevealsT b c = Inr (b', snd r)" by (cases r) simp
    from trace_fresh(1)[OF this] that(2) show ?thesis by blast
  qed
  {
    fix p b' entered assume a: "c = Some p \<and> PropagateRevealsT b c = Inr (b', entered)"
    then have cp: "c = Some p" and r: "PropagateRevealsT b c = Inr (b', entered)" by blast+
    from trace_fresh(1)[OF r]
    have t: "entered = p # tl entered" "freshTrace b b' (tl entered)"
      unfolding cp option.case by blast+
    from t(1) show "entered = p # tl entered" .
    from t(2) show "distinct (tl entered)" by (simp add: freshTrace_def)
    from t(2) show "\<forall>e\<in>set (tl entered). \<not> revealedAt b e \<and> revealedAt b' e"
      by (simp add: freshTrace_def)
    show "distinct entered" if "revealedAt b p"
    proof -
      from t(2) that have "p \<notin> set (tl entered)" "distinct (tl entered)"
        by (auto simp: freshTrace_def)
      then have "distinct (p # tl entered)" by simp
      with t(1) show ?thesis by simp
    qed
  }
  show "\<exists>b'. PropagateReveals b c = Inr b'"
    if "reachable b \<and> (\<forall>p. c = Some p \<longrightarrow> inGrid b p)"
  proof -
    from that reachable_inv[of b] have "gridOK b" by (simp add: boardInv_def)
    from propagate_correct(1)[OF this, of c] that show ?thesis by blast
  qed
qed

theorem PropagateReveals_terminates_witness:
  "reachable sampleBoard \<and> inGrid sampleBoard (0, 2)
   \<and> (\<exists>b'. PropagateReveals sampleBoard (Some (0, 2)) = Inr b'
          \<and> unrevealedCount b' \<le> unrevealedCount sampleBoard)"
proof -
  have i: "inGrid sampleBoard (0, 2)" by (simp add: sample_inGrid)
  note t = PropagateReveals_terminates[of sampleBoard "Some (0, 2)" "[]" "(0, 2)"]
  from t sample_reachable i obtain b' where b': "PropagateReveals sampleBoard (Some (0, 2)) = Inr b'"
    by blast
  with t have "unrevealedCount b' \<le> unrevealedCount sampleBoard" by blast
  with b' sample_reachable i show ?thesis by blast
qed

end
